theory Spec2Isabelle
  imports Main "HOL-Library.Word"
begin

section \<open>Data model of \<^verbatim>\<open>c++/src/io/Cache.hh\<close>\<close>

text \<open>
  The header declares two plain structs over \<^verbatim>\<open>int64_t\<close> and the class
  \<^verbatim>\<open>ReadRangeCache\<close>.  A 64-bit signed integer is a \<open>64 word\<close> read through
  \<open>sint\<close>; \<open>+\<close> on words wraps around, comparisons of \<^verbatim>\<open>int64_t\<close> are the
  signed ones (\<open>\<le>s\<close>).
\<close>

type_synonym int64 = "64 word"

text \<open>\<^verbatim>\<open>struct CacheOptions { int64_t hole_size_limit; int64_t range_size_limit; }\<close>\<close>

record CacheOptions =
  hole_size_limit :: int64
  range_size_limit :: int64

text \<open>
  \<^verbatim>\<open>struct ReadRange { int64_t offset; int64_t length; ... }\<close>.  The field
  \<^verbatim>\<open>length\<close> is called \<open>length_r\<close> here, since \<open>length\<close> is the length of a list.
\<close>

record ReadRange =
  offset :: int64
  length_r :: int64

text \<open>\<^verbatim>\<open>operator==\<close>: both fields are compared.\<close>

definition ReadRange_eq :: "ReadRange \<Rightarrow> ReadRange \<Rightarrow> bool" where
  "ReadRange_eq left right \<longleftrightarrow> (offset left = offset right \<and> length_r left = length_r right)"

text \<open>\<^verbatim>\<open>operator!=\<close> is \<^verbatim>\<open>!(left == right)\<close>.\<close>

definition ReadRange_neq :: "ReadRange \<Rightarrow> ReadRange \<Rightarrow> bool" where
  "ReadRange_neq left right \<longleftrightarrow> \<not> ReadRange_eq left right"

text \<open>
  \<^verbatim>\<open>bool contains(const ReadRange& other) const {
    return (offset <= other.offset && offset + length >= other.offset + other.length); }\<close>
  The two sums are \<^verbatim>\<open>int64_t\<close> additions.
\<close>

definition contains :: "ReadRange \<Rightarrow> ReadRange \<Rightarrow> bool" where
  "contains r other \<longleftrightarrow>
     (offset r \<le>s offset other \<and> offset other + length_r other \<le>s offset r + length_r r)"

text \<open>
  The sum \<^verbatim>\<open>offset + length\<close> of a range is defined in C++ only when it does not
  overflow \<^verbatim>\<open>int64_t\<close>; \<open>end_defined\<close> says that it does not.
\<close>

definition end_defined :: "ReadRange \<Rightarrow> bool" where
  "end_defined r \<longleftrightarrow>
     - (2 ^ 63) \<le> sint (offset r) + sint (length_r r) \<and> sint (offset r) + sint (length_r r) < 2 ^ 63"

text \<open>
  \<^verbatim>\<open>static constexpr int64_t kDefaultHoleSizeLimit = 8192;\<close>
  \<^verbatim>\<open>static constexpr int64_t kDefaultRangeSizeLimit = 32 * 1024 * 1024;\<close>
\<close>

definition kDefaultHoleSizeLimit :: int64 where
  "kDefaultHoleSizeLimit = 8192"

definition kDefaultRangeSizeLimit :: int64 where
  "kDefaultRangeSizeLimit = 32 * 1024 * 1024"

text \<open>
  Modelled from the spec: the member \<open>table\<close>, the ordered table of merged ranges that
  the cache owns (section 3, \<^emph>\<open>RangeCache\<close>), kept as the physical range of each entry;
  the header does not declare it.

  \<^verbatim>\<open>class ReadRangeCache\<close> itself declares the members \<^verbatim>\<open>InputStream* stream\<close>
  and \<^verbatim>\<open>CacheOptions options\<close>, the constructor and the operations \<^verbatim>\<open>cache\<close> and
  \<^verbatim>\<open>read\<close>, without their bodies.  The stream pointer is left out of the record: no
  operation modelled below reads it.
\<close>

record ReadRangeCache =
  options :: CacheOptions
  table :: "ReadRange list"

text \<open>
  \<^verbatim>\<open>explicit ReadRangeCache(InputStream* _stream, CacheOptions _options)
      : stream(_stream), options(std::move(_options)) {}\<close>: a new cache holds the options;
  its table is empty.
\<close>

definition ReadRangeCache_new :: "CacheOptions \<Rightarrow> ReadRangeCache" where
  "ReadRangeCache_new opts = \<lparr>options = opts, table = []\<rparr>"

section \<open>The range merger and \<^verbatim>\<open>cache\<close>, modelled from the specification\<close>

text \<open>
  Modelled from the spec: a range is the half-open interval \<open>[offset, offset + length)\<close> of
  integers (section 3); \<open>range_begin\<close> and \<open>range_end\<close> are its two bounds.
\<close>

definition range_begin :: "ReadRange \<Rightarrow> int" where
  "range_begin r = sint (offset r)"

definition range_end :: "ReadRange \<Rightarrow> int" where
  "range_end r = sint (offset r) + sint (length_r r)"

text \<open>
  Modelled from the spec: a well-formed range has \<open>offset \<ge> 0\<close> and \<open>length \<ge> 0\<close>
  (section 3); its exclusive end is an \<^verbatim>\<open>int64_t\<close> as well.
\<close>

definition valid_range :: "ReadRange \<Rightarrow> bool" where
  "valid_range r \<longleftrightarrow>
     0 \<le> sint (offset r) \<and> 0 \<le> sint (length_r r) \<and> sint (offset r) + sint (length_r r) < 2 ^ 63"

text \<open>
  Modelled from the spec: two ranges overlap when their half-open intervals cross; the
  precondition of \<^verbatim>\<open>cache\<close> is that the ranges are pairwise non-overlapping
  (section 4.3), here for every two positions of a list.
\<close>

definition overlaps :: "ReadRange \<Rightarrow> ReadRange \<Rightarrow> bool" where
  "overlaps a b \<longleftrightarrow> range_begin a < range_end b \<and> range_begin b < range_end a"

definition pairwise_disjoint :: "ReadRange list \<Rightarrow> bool" where
  "pairwise_disjoint rs = sorted_wrt (\<lambda>a b. \<not> overlaps a b) rs"

text \<open>
  Modelled from the spec: the merging condition of the RangeMerger (section 4.1), which is
  not in the header: a running merged range is combined with the next candidate iff
  \<open>next.offset - running.end \<le> hole_size_limit\<close> and
  \<open>next.end - running.offset \<le> range_size_limit\<close>.
\<close>

definition can_combine :: "CacheOptions \<Rightarrow> ReadRange \<Rightarrow> ReadRange \<Rightarrow> bool" where
  "can_combine opts running next \<longleftrightarrow>
     range_begin next - range_end running \<le> sint (hole_size_limit opts)
     \<and> range_end next - range_begin running \<le> sint (range_size_limit opts)"

text \<open>
  Modelled from the spec: the combined range.  A merged range covers every range merged
  into it (section 3, \<^emph>\<open>MergedRange\<close>), so it starts where the running range starts and
  ends at the later of the two ends.
\<close>

definition combine :: "ReadRange \<Rightarrow> ReadRange \<Rightarrow> ReadRange" where
  "combine running next =
     \<lparr>offset = offset running,
      length_r = word_of_int (max (range_end running) (range_end next) - range_begin running)\<rparr>"

text \<open>
  Modelled from the spec: one step of the greedy walk (section 4.1).  The state is the
  list of closed merged ranges and the running one.  When the condition fails the running
  range is closed and a new one starts from the candidate.
\<close>

fun merge_step ::
  "CacheOptions \<Rightarrow> ReadRange list \<times> ReadRange option \<Rightarrow> ReadRange
     \<Rightarrow> ReadRange list \<times> ReadRange option" where
  "merge_step opts (closed, None) next = (closed, Some next)"
| "merge_step opts (closed, Some running) next =
     (if can_combine opts running next then (closed, Some (combine running next))
      else (closed @ [running], Some next))"

text \<open>
  Modelled from the spec: the RangeMerger on one sorted stream: the walk over the whole
  stream; at the end the running range is closed.
\<close>

definition coalesce :: "CacheOptions \<Rightarrow> ReadRange list \<Rightarrow> ReadRange list" where
  "coalesce opts stream =
     (case foldl (merge_step opts) ([], None) stream of
        (closed, None) \<Rightarrow> closed
      | (closed, Some running) \<Rightarrow> closed @ [running])"

text \<open>
  Modelled from the spec: the sorted batch is walked alongside the existing table, the
  two forming one stream sorted by offset (section 4.1).  Where an entry of the table and
  a new range start at the same offset, the entry of the table comes first.
\<close>

fun merge_streams :: "ReadRange list \<Rightarrow> ReadRange list \<Rightarrow> ReadRange list" where
  "merge_streams [] ys = ys"
| "merge_streams (x # xs) [] = x # xs"
| "merge_streams (x # xs) (y # ys) =
     (if range_begin y < range_begin x then y # merge_streams (x # xs) ys
      else x # merge_streams xs (y # ys))"

text \<open>
  Modelled from the spec: \<^verbatim>\<open>void cache(std::vector<ReadRange> ranges)\<close>, declared in the
  header without a body: the batch is sorted by offset, walked alongside the table and
  merged greedily; the result is the new table (sections 4.1 and 4.3).  Nothing is
  returned.  Fetching the merged ranges is not modelled.
\<close>

definition cache :: "ReadRangeCache \<Rightarrow> ReadRange list \<Rightarrow> ReadRangeCache" where
  "cache c ranges =
     c\<lparr>table := coalesce (options c) (merge_streams (table c) (sort_key range_begin ranges))\<rparr>"

text \<open>Modelled from the spec: a sequence of \<^verbatim>\<open>cache\<close> calls on a new cache.\<close>

definition cache_all :: "CacheOptions \<Rightarrow> ReadRange list list \<Rightarrow> ReadRangeCache" where
  "cache_all opts batches = foldl cache (ReadRangeCache_new opts) batches"

text \<open>
  Two ranges are in order when the second starts no earlier than the first and they do
  not overlap.
\<close>

definition in_order :: "ReadRange \<Rightarrow> ReadRange \<Rightarrow> bool" where
  "in_order a b \<longleftrightarrow> range_begin a \<le> range_begin b \<and> \<not> overlaps a b"

text \<open>
  The relation between an element of the stream and a later one that the walk relies on:
  the later one starts no earlier, and it starts at or after the end of the earlier one,
  or is an empty range at the start of the earlier one, or lies inside the earlier one
  and ends within \<open>range_size_limit\<close> of its start, the hole limit being non-negative.
\<close>

definition stream_ok :: "CacheOptions \<Rightarrow> ReadRange \<Rightarrow> ReadRange \<Rightarrow> bool" where
  "stream_ok opts x y \<longleftrightarrow>
     range_begin x \<le> range_begin y
     \<and> (range_end x \<le> range_begin y
        \<or> range_end y \<le> range_begin x
        \<or> (range_end y \<le> range_end x
           \<and> 0 \<le> sint (hole_size_limit opts)
           \<and> range_end y - range_begin x \<le> sint (range_size_limit opts)))"

text \<open>
  The invariant of the table that a call of \<^verbatim>\<open>cache\<close> preserves, relative to the
  list \<open>reqs\<close> of all ranges requested so far: the merged ranges are in order and well
  formed; each starts where some requested range starts and ends where some requested
  range ends; a merged range that is not itself a requested range was combined under a
  non-negative hole limit and is no longer than \<open>range_size_limit\<close>; every requested range
  is covered by a merged range; and no two consecutive merged ranges could be combined.
\<close>

definition table_inv :: "CacheOptions \<Rightarrow> ReadRange list \<Rightarrow> ReadRange list \<Rightarrow> bool" where
  "table_inv opts reqs t \<longleftrightarrow>
     sorted_wrt in_order t
     \<and> (\<forall>m\<in>set t. valid_range m)
     \<and> (\<forall>m\<in>set t. \<exists>q\<in>set reqs. range_begin q = range_begin m)
     \<and> (\<forall>m\<in>set t. \<exists>q\<in>set reqs. range_end q = range_end m)
     \<and> (\<forall>m\<in>set t. m \<in> set reqs
            \<or> (0 \<le> sint (hole_size_limit opts)
               \<and> range_end m - range_begin m \<le> sint (range_size_limit opts)))
     \<and> (\<forall>q\<in>set reqs. \<exists>m\<in>set t. range_begin m \<le> range_begin q \<and> range_end q \<le> range_end m)
     \<and> successively (\<lambda>a b. \<not> can_combine opts a b) t"

section \<open>Signed 64-bit arithmetic\<close>

lemma sint_add_int64:
  fixes a b :: int64
  assumes "- (2 ^ 63) \<le> sint a + sint b" and "sint a + sint b < 2 ^ 63"
  shows "sint (a + b) = sint a + sint b"
  using assms by (simp add: sint_word_add signed_take_bit_int_eq_self)

lemma sint_end_defined:
  "end_defined r \<Longrightarrow> sint (offset r + length_r r) = sint (offset r) + sint (length_r r)"
  unfolding end_defined_def by (simp add: sint_add_int64)

lemma sint_of_int64:
  assumes "- (2 ^ 63) \<le> x" and "x < 2 ^ 63"
  shows "sint (word_of_int x :: int64) = x"
  using assms by (simp add: sint_sbintrunc' signed_take_bit_int_eq_self)

section \<open>Properties of the range merger\<close>

subsection \<open>Combining two ranges\<close>

lemma range_begin_combine: "range_begin (combine r n) = range_begin r"
  by (simp add: combine_def range_begin_def)

lemma valid_range_bounds:
  "valid_range r \<Longrightarrow> 0 \<le> range_begin r \<and> range_begin r \<le> range_end r \<and> range_end r < 2 ^ 63"
  by (simp add: valid_range_def range_begin_def range_end_def)

lemma sint_length_combine:
  assumes "valid_range r" and "valid_range n"
  shows "sint (length_r (combine r n)) = max (range_end r) (range_end n) - range_begin r"
proof -
  have lo: "- (2 ^ 63) \<le> max (range_end r) (range_end n) - range_begin r"
    using valid_range_bounds [OF assms(1)] by (simp add: max_def)
  have hi: "max (range_end r) (range_end n) - range_begin r < 2 ^ 63"
    using valid_range_bounds [OF assms(1)] valid_range_bounds [OF assms(2)]
    by (simp add: max_def)
  have "length_r (combine r n)
          = word_of_int (max (range_end r) (range_end n) - range_begin r)"
    by (simp only: combine_def ReadRange.select_convs)
  then show ?thesis
    by (simp only: sint_of_int64 [OF lo hi])
qed

lemma range_end_combine:
  assumes "valid_range r" and "valid_range n"
  shows "range_end (combine r n) = max (range_end r) (range_end n)"
proof -
  have "range_end (combine r n) = range_begin r + sint (length_r (combine r n))"
    by (simp add: range_end_def range_begin_def combine_def)
  then show ?thesis
    by (simp add: sint_length_combine [OF assms])
qed

lemma valid_combine:
  assumes "valid_range r" and "valid_range n"
  shows "valid_range (combine r n)"
proof -
  have e: "sint (offset (combine r n)) + sint (length_r (combine r n)) = max (range_end r) (range_end n)"
    using range_end_combine [OF assms] by (simp add: range_end_def)
  have b: "sint (offset (combine r n)) = range_begin r"
    by (simp add: combine_def range_begin_def)
  have l: "0 \<le> sint (length_r (combine r n))"
    using sint_length_combine [OF assms] valid_range_bounds [OF assms(1)] by linarith
  show ?thesis
    unfolding valid_range_def
    using e b l valid_range_bounds [OF assms(1)] valid_range_bounds [OF assms(2)]
    by (simp add: max_def)
qed

lemma combine_absorb:
  assumes "valid_range r" and "range_end n \<le> range_end r"
  shows "combine r n = r"
proof -
  have "max (range_end r) (range_end n) - range_begin r = sint (length_r r)"
    using assms(2) by (simp add: range_end_def range_begin_def)
  then show ?thesis
    by (simp add: combine_def)
qed

lemma contains_valid:
  assumes "valid_range a" and "valid_range b"
  shows "contains a b \<longleftrightarrow> range_begin a \<le> range_begin b \<and> range_end b \<le> range_end a"
proof -
  have "end_defined a" and "end_defined b"
    using assms by (simp_all add: valid_range_def end_defined_def)
  then show ?thesis
    by (simp add: contains_def word_sle_eq sint_end_defined range_begin_def range_end_def)
qed

lemma run_closed:
  "(case foldl (merge_step opts) (closed, Some r) xs of
      (c, None) \<Rightarrow> c | (c, Some q) \<Rightarrow> c @ [q])
   = closed @ (case foldl (merge_step opts) ([], Some r) xs of
      (c, None) \<Rightarrow> c | (c, Some q) \<Rightarrow> c @ [q])"
proof (induction xs arbitrary: closed r)
  case Nil
  show ?case by simp
next
  case (Cons n xs)
  show ?case
  proof (cases "can_combine opts r n")
    case True
    then show ?thesis
      using Cons.IH [of closed "combine r n"] by simp
  next
    case False
    have "(case foldl (merge_step opts) (closed @ [r], Some n) xs of
            (c, None) \<Rightarrow> c | (c, Some q) \<Rightarrow> c @ [q])
          = closed @ (case foldl (merge_step opts) ([r], Some n) xs of
            (c, None) \<Rightarrow> c | (c, Some q) \<Rightarrow> c @ [q])"
      using Cons.IH [of "closed @ [r]" n] Cons.IH [of "[r]" n] by simp
    then show ?thesis
      using False by simp
  qed
qed

lemma coalesce_Nil: "coalesce opts [] = []"
  by (simp add: coalesce_def)

lemma coalesce_single: "coalesce opts [r] = [r]"
  by (simp add: coalesce_def)

lemma coalesce_Cons_Cons:
  "coalesce opts (r # n # rest) =
     (if can_combine opts r n then coalesce opts (combine r n # rest)
      else r # coalesce opts (n # rest))"
proof (cases "can_combine opts r n")
  case True
  then show ?thesis by (simp add: coalesce_def)
next
  case False
  then show ?thesis
    using run_closed [of opts "[r]" n rest] by (simp add: coalesce_def)
qed

subsection \<open>The walk over a non-empty stream\<close>

lemma coalesce_begin_in_stream:
  "m \<in> set (coalesce opts (r # rest)) \<Longrightarrow> \<exists>x\<in>set (r # rest). range_begin m = range_begin x"
proof (induction rest arbitrary: r)
  case Nil
  then show ?case by (simp add: coalesce_single)
next
  case (Cons n rest)
  show ?case
  proof (cases "can_combine opts r n")
    case True
    then have "m \<in> set (coalesce opts (combine r n # rest))"
      using Cons.prems by (simp add: coalesce_Cons_Cons)
    then obtain x where "x \<in> set (combine r n # rest)" and "range_begin m = range_begin x"
      using Cons.IH by blast
    then show ?thesis
      by (auto simp: range_begin_combine)
  next
    case False
    then have "m = r \<or> m \<in> set (coalesce opts (n # rest))"
      using Cons.prems by (simp add: coalesce_Cons_Cons)
    then show ?thesis
      using Cons.IH [of n] by auto
  qed
qed

lemma coalesce_valid:
  "\<forall>x\<in>set (r # rest). valid_range x \<Longrightarrow> \<forall>m\<in>set (coalesce opts (r # rest)). valid_range m"
proof (induction rest arbitrary: r)
  case Nil
  then show ?case by (simp add: coalesce_single)
next
  case (Cons n rest)
  show ?case
  proof (cases "can_combine opts r n")
    case True
    have "\<forall>x\<in>set (combine r n # rest). valid_range x"
      using Cons.prems by (simp add: valid_combine)
    then have "\<forall>m\<in>set (coalesce opts (combine r n # rest)). valid_range m"
      by (rule Cons.IH)
    then show ?thesis
      using True by (simp add: coalesce_Cons_Cons)
  next
    case False
    have "\<forall>x\<in>set (n # rest). valid_range x"
      using Cons.prems by simp
    then have "\<forall>m\<in>set (coalesce opts (n # rest)). valid_range m"
      by (rule Cons.IH)
    moreover have "valid_range r"
      using Cons.prems by simp
    ultimately show ?thesis
      using False by (simp add: coalesce_Cons_Cons)
  qed
qed

lemma coalesce_head:
  "\<forall>x\<in>set (r # rest). valid_range x \<Longrightarrow>
   \<exists>m ms. coalesce opts (r # rest) = m # ms \<and> range_begin m = range_begin r
          \<and> range_end r \<le> range_end m"
proof (induction rest arbitrary: r)
  case Nil
  then show ?case by (simp add: coalesce_single)
next
  case (Cons n rest)
  show ?case
  proof (cases "can_combine opts r n")
    case True
    have v: "\<forall>x\<in>set (combine r n # rest). valid_range x"
      using Cons.prems by (simp add: valid_combine)
    obtain m ms where "coalesce opts (combine r n # rest) = m # ms"
      and "range_begin m = range_begin (combine r n)"
      and "range_end (combine r n) \<le> range_end m"
      using Cons.IH [OF v] by blast
    moreover have "range_end r \<le> range_end (combine r n)"
      using Cons.prems by (simp add: range_end_combine)
    ultimately show ?thesis
      using True by (simp add: coalesce_Cons_Cons range_begin_combine)
  next
    case False
    then show ?thesis
      by (simp add: coalesce_Cons_Cons)
  qed
qed

lemma stream_ok_begin: "stream_ok opts x y \<Longrightarrow> range_begin x \<le> range_begin y"
  by (simp add: stream_ok_def)

lemma in_order_iff:
  "in_order a b \<longleftrightarrow>
     range_begin a \<le> range_begin b
     \<and> (range_end a \<le> range_begin b \<or> range_end b \<le> range_begin a)"
  by (auto simp: in_order_def overlaps_def)

lemma in_order_stream_ok: "in_order x y \<Longrightarrow> stream_ok opts x y"
  by (auto simp: in_order_iff stream_ok_def)

lemma stream_ok_in_order:
  assumes "stream_ok opts x y" and "valid_range y"
    and "\<not> (0 \<le> sint (hole_size_limit opts) \<and> 0 \<le> sint (range_size_limit opts))"
  shows "in_order x y"
  using assms(1,3) valid_range_bounds [OF assms(2)]
  unfolding stream_ok_def in_order_iff by auto

lemma combine_extends:
  assumes "valid_range r" and "valid_range n" and "can_combine opts r n"
    and "stream_ok opts r n" and "range_end r < range_end n"
  shows "range_end r \<le> range_begin n \<and> 0 \<le> sint (hole_size_limit opts)
         \<and> range_end (combine r n) = range_end n
         \<and> range_end n - range_begin r \<le> sint (range_size_limit opts)"
proof -
  have e: "range_end r \<le> range_begin n"
    using assms(4,5) valid_range_bounds [OF assms(1)] unfolding stream_ok_def by auto
  then have "0 \<le> sint (hole_size_limit opts)"
    using assms(3) unfolding can_combine_def by simp
  moreover have "range_end (combine r n) = range_end n"
    using assms(5) by (simp add: range_end_combine [OF assms(1,2)])
  moreover have "range_end n - range_begin r \<le> sint (range_size_limit opts)"
    using assms(3) unfolding can_combine_def by simp
  ultimately show ?thesis using e by simp
qed

lemma stream_ok_combine:
  assumes "valid_range r" and "valid_range n" and "can_combine opts r n"
    and "stream_ok opts r n" and "range_end r < range_end n"
    and "stream_ok opts r y" and "stream_ok opts n y"
  shows "stream_ok opts (combine r n) y"
proof -
  note c = combine_extends [OF assms(1-5)]
  have b: "range_begin r \<le> range_begin y" and bn: "range_begin n \<le> range_begin y"
    using assms(6,7) by (simp_all add: stream_ok_begin)
  have "range_end n \<le> range_begin y \<or> range_end y \<le> range_end n"
    using assms(7) valid_range_bounds [OF assms(2)] unfolding stream_ok_def by auto
  then show ?thesis
    unfolding stream_ok_def range_begin_combine using b c by auto
qed

lemma reject_disjoint:
  assumes "0 \<le> sint (hole_size_limit opts)" and "0 \<le> sint (range_size_limit opts)"
    and "stream_ok opts r n" and "\<not> can_combine opts r n"
    and "valid_range r" and "valid_range n"
  shows "range_end r \<le> range_begin n"
  using assms(1-4) valid_range_bounds [OF assms(5)] valid_range_bounds [OF assms(6)]
  unfolding stream_ok_def can_combine_def by auto

lemma coalesce_origin:
  "\<forall>x\<in>set (r # rest). valid_range x \<Longrightarrow> sorted_wrt (stream_ok opts) (r # rest) \<Longrightarrow>
   \<forall>m\<in>set (coalesce opts (r # rest)).
      m \<in> set (r # rest)
      \<or> (0 \<le> sint (hole_size_limit opts)
         \<and> range_end m - range_begin m \<le> sint (range_size_limit opts))"
proof (induction rest arbitrary: r)
  case Nil
  then show ?case by (simp add: coalesce_single)
next
  case (Cons n rest)
  have vr: "valid_range r" and vn: "valid_range n" and vrest: "\<forall>x\<in>set rest. valid_range x"
    using Cons.prems(1) by simp_all
  have rn: "stream_ok opts r n" and r_rest: "\<forall>y\<in>set rest. stream_ok opts r y"
    and n_rest: "\<forall>y\<in>set rest. stream_ok opts n y" and s_rest: "sorted_wrt (stream_ok opts) rest"
    using Cons.prems(2) by simp_all
  show ?case
  proof (cases "can_combine opts r n")
    case True
    show ?thesis
    proof (cases "range_end n \<le> range_end r")
      case absorbed: True
      have "\<forall>m\<in>set (coalesce opts (r # rest)).
              m \<in> set (r # rest)
              \<or> (0 \<le> sint (hole_size_limit opts)
                 \<and> range_end m - range_begin m \<le> sint (range_size_limit opts))"
      proof (rule Cons.IH)
        show "\<forall>x\<in>set (r # rest). valid_range x" using vr vrest by simp
        show "sorted_wrt (stream_ok opts) (r # rest)" using r_rest s_rest by simp
      qed
      then show ?thesis
        using True combine_absorb [OF vr absorbed] by (auto simp: coalesce_Cons_Cons)
    next
      case False
      then have longer: "range_end r < range_end n" by simp
      note c = combine_extends [OF vr vn True rn longer]
      have "\<forall>y\<in>set rest. stream_ok opts (combine r n) y"
        using stream_ok_combine [OF vr vn True rn longer] r_rest n_rest by blast
      then have s: "sorted_wrt (stream_ok opts) (combine r n # rest)"
        using s_rest by simp
      have v: "\<forall>x\<in>set (combine r n # rest). valid_range x"
        using vr vn vrest by (simp add: valid_combine)
      have ih: "\<forall>m\<in>set (coalesce opts (combine r n # rest)).
              m \<in> set (combine r n # rest)
              \<or> (0 \<le> sint (hole_size_limit opts)
                 \<and> range_end m - range_begin m \<le> sint (range_size_limit opts))"
        using Cons.IH [OF v s] .
      have "0 \<le> sint (hole_size_limit opts)
            \<and> range_end (combine r n) - range_begin (combine r n) \<le> sint (range_size_limit opts)"
        using c by (simp add: range_begin_combine)
      then show ?thesis
        using True ih by (auto simp: coalesce_Cons_Cons)
    qed
  next
    case False
    have "\<forall>m\<in>set (coalesce opts (n # rest)).
              m \<in> set (n # rest)
              \<or> (0 \<le> sint (hole_size_limit opts)
                 \<and> range_end m - range_begin m \<le> sint (range_size_limit opts))"
    proof (rule Cons.IH)
      show "\<forall>x\<in>set (n # rest). valid_range x" using vn vrest by simp
      show "sorted_wrt (stream_ok opts) (n # rest)" using n_rest s_rest by simp
    qed
    then show ?thesis
      using False by (auto simp: coalesce_Cons_Cons)
  qed
qed

lemma coalesce_in_order:
  "\<forall>x\<in>set (r # rest). valid_range x \<Longrightarrow> sorted_wrt (stream_ok opts) (r # rest) \<Longrightarrow>
   sorted_wrt in_order (coalesce opts (r # rest))"
proof (induction rest arbitrary: r)
  case Nil
  then show ?case by (simp add: coalesce_single)
next
  case (Cons n rest)
  have vr: "valid_range r" and vn: "valid_range n" and vrest: "\<forall>x\<in>set rest. valid_range x"
    using Cons.prems(1) by simp_all
  have rn: "stream_ok opts r n" and r_rest: "\<forall>y\<in>set rest. stream_ok opts r y"
    and n_rest: "\<forall>y\<in>set rest. stream_ok opts n y" and s_rest: "sorted_wrt (stream_ok opts) rest"
    using Cons.prems(2) by simp_all
  show ?case
  proof (cases "can_combine opts r n")
    case True
    show ?thesis
    proof (cases "range_end n \<le> range_end r")
      case absorbed: True
      have "sorted_wrt in_order (coalesce opts (r # rest))"
      proof (rule Cons.IH)
        show "\<forall>x\<in>set (r # rest). valid_range x" using vr vrest by simp
        show "sorted_wrt (stream_ok opts) (r # rest)" using r_rest s_rest by simp
      qed
      then show ?thesis
        using True combine_absorb [OF vr absorbed] by (simp add: coalesce_Cons_Cons)
    next
      case False
      then have longer: "range_end r < range_end n" by simp
      have "\<forall>y\<in>set rest. stream_ok opts (combine r n) y"
        using stream_ok_combine [OF vr vn True rn longer] r_rest n_rest by blast
      then have s: "sorted_wrt (stream_ok opts) (combine r n # rest)"
        using s_rest by simp
      have v: "\<forall>x\<in>set (combine r n # rest). valid_range x"
        using vr vn vrest by (simp add: valid_combine)
      show ?thesis
        using True Cons.IH [OF v s] by (simp add: coalesce_Cons_Cons)
    qed
  next
    case False
    have v: "\<forall>x\<in>set (n # rest). valid_range x" using vn vrest by simp
    have s: "sorted_wrt (stream_ok opts) (n # rest)" using n_rest s_rest by simp
    have "in_order r m" if mm: "m \<in> set (coalesce opts (n # rest))" for m
    proof (cases "0 \<le> sint (hole_size_limit opts) \<and> 0 \<le> sint (range_size_limit opts)")
      case True
      then have e: "range_end r \<le> range_begin n"
        using reject_disjoint [OF _ _ rn False vr vn] by blast
      obtain x where "x \<in> set (n # rest)" and "range_begin m = range_begin x"
        using coalesce_begin_in_stream [OF mm] by blast
      then have "range_begin n \<le> range_begin m"
        using n_rest stream_ok_begin by auto
      then show ?thesis
        using e valid_range_bounds [OF vr] by (simp add: in_order_iff)
    next
      case neg: False
      have vm: "valid_range m"
        using coalesce_valid [OF v] mm by blast
      have "m \<in> set (n # rest)
            \<or> (0 \<le> sint (hole_size_limit opts)
               \<and> range_end m - range_begin m \<le> sint (range_size_limit opts))"
        using coalesce_origin [OF v s] mm by blast
      then have "m \<in> set (n # rest)"
        using neg valid_range_bounds [OF vm] by auto
      then have "stream_ok opts r m"
        using rn r_rest by auto
      then show ?thesis
        using stream_ok_in_order [OF _ vm neg] by blast
    qed
    moreover have "sorted_wrt in_order (coalesce opts (n # rest))"
      using Cons.IH [OF v s] .
    ultimately show ?thesis
      using False by (simp add: coalesce_Cons_Cons)
  qed
qed

lemma coalesce_gaps:
  "\<forall>x\<in>set (r # rest). valid_range x \<Longrightarrow>
   successively (\<lambda>a b. \<not> can_combine opts a b) (coalesce opts (r # rest))"
proof (induction rest arbitrary: r)
  case Nil
  then show ?case by (simp add: coalesce_single)
next
  case (Cons n rest)
  show ?case
  proof (cases "can_combine opts r n")
    case True
    have "\<forall>x\<in>set (combine r n # rest). valid_range x"
      using Cons.prems by (simp add: valid_combine)
    then have "successively (\<lambda>a b. \<not> can_combine opts a b) (coalesce opts (combine r n # rest))"
      by (rule Cons.IH)
    then show ?thesis
      using True by (simp add: coalesce_Cons_Cons)
  next
    case False
    have v: "\<forall>x\<in>set (n # rest). valid_range x"
      using Cons.prems by simp
    obtain m ms where c: "coalesce opts (n # rest) = m # ms"
      and b: "range_begin m = range_begin n" and e: "range_end n \<le> range_end m"
      using coalesce_head [OF v] by blast
    have "\<not> can_combine opts r m"
      using False b e unfolding can_combine_def by auto
    moreover have "successively (\<lambda>a b. \<not> can_combine opts a b) (m # ms)"
      using Cons.IH [OF v] c by simp
    ultimately show ?thesis
      using False c by (simp add: coalesce_Cons_Cons)
  qed
qed

lemma coalesce_covers:
  "\<forall>x\<in>set (r # rest). valid_range x \<Longrightarrow>
   sorted_wrt (\<lambda>a b. range_begin a \<le> range_begin b) (r # rest) \<Longrightarrow>
   \<forall>x\<in>set (r # rest). \<exists>m\<in>set (coalesce opts (r # rest)).
      range_begin m \<le> range_begin x \<and> range_end x \<le> range_end m"
proof (induction rest arbitrary: r)
  case Nil
  then show ?case by (simp add: coalesce_single)
next
  case (Cons n rest)
  have vr: "valid_range r" and vn: "valid_range n" and vrest: "\<forall>x\<in>set rest. valid_range x"
    using Cons.prems(1) by simp_all
  show ?case
  proof (cases "can_combine opts r n")
    case True
    have v: "\<forall>x\<in>set (combine r n # rest). valid_range x"
      using vr vn vrest by (simp add: valid_combine)
    have s: "sorted_wrt (\<lambda>a b. range_begin a \<le> range_begin b) (combine r n # rest)"
      using Cons.prems(2) by (simp add: range_begin_combine)
    have ih: "\<forall>x\<in>set (combine r n # rest). \<exists>m\<in>set (coalesce opts (combine r n # rest)).
      range_begin m \<le> range_begin x \<and> range_end x \<le> range_end m"
      using Cons.IH [OF v s] .
    then obtain m where m: "m \<in> set (coalesce opts (combine r n # rest))"
      and mb: "range_begin m \<le> range_begin (combine r n)"
      and me: "range_end (combine r n) \<le> range_end m"
      by auto
    have rn: "range_begin r \<le> range_begin n"
      using Cons.prems(2) by simp
    have "range_begin m \<le> range_begin r \<and> range_end r \<le> range_end m"
      and "range_begin m \<le> range_begin n \<and> range_end n \<le> range_end m"
      using mb me rn by (simp_all add: range_begin_combine range_end_combine [OF vr vn])
    then show ?thesis
      using True m ih by (auto simp: coalesce_Cons_Cons)
  next
    case False
    have "\<forall>x\<in>set (n # rest). \<exists>m\<in>set (coalesce opts (n # rest)).
      range_begin m \<le> range_begin x \<and> range_end x \<le> range_end m"
    proof (rule Cons.IH)
      show "\<forall>x\<in>set (n # rest). valid_range x" using vn vrest by simp
      show "sorted_wrt (\<lambda>a b. range_begin a \<le> range_begin b) (n # rest)"
        using Cons.prems(2) by simp
    qed
    then show ?thesis
      using False by (auto simp: coalesce_Cons_Cons)
  qed
qed

lemma coalesce_long_is_input:
  "\<forall>x\<in>set (r # rest). valid_range x \<Longrightarrow>
   \<forall>m\<in>set (coalesce opts (r # rest)).
      range_end m - range_begin m \<le> sint (range_size_limit opts) \<or> m \<in> set (r # rest)"
proof (induction rest arbitrary: r)
  case Nil
  then show ?case by (simp add: coalesce_single)
next
  case (Cons n rest)
  have vr: "valid_range r" and vn: "valid_range n" and vrest: "\<forall>x\<in>set rest. valid_range x"
    using Cons.prems(1) by simp_all
  show ?case
  proof (cases "can_combine opts r n")
    case True
    have v: "\<forall>x\<in>set (combine r n # rest). valid_range x"
      using vr vn vrest by (simp add: valid_combine)
    have c: "range_end (combine r n) - range_begin (combine r n) \<le> sint (range_size_limit opts)
             \<or> combine r n = r"
    proof (cases "range_end n \<le> range_end r")
      case True
      then show ?thesis using combine_absorb [OF vr] by simp
    next
      case False
      then show ?thesis
        using \<open>can_combine opts r n\<close>
        by (simp add: range_begin_combine range_end_combine [OF vr vn] can_combine_def max_def)
    qed
    have "\<forall>m\<in>set (coalesce opts (combine r n # rest)).
      range_end m - range_begin m \<le> sint (range_size_limit opts) \<or> m \<in> set (combine r n # rest)"
      using Cons.IH [OF v] .
    then show ?thesis
      using True c by (auto simp: coalesce_Cons_Cons)
  next
    case False
    have "\<forall>x\<in>set (n # rest). valid_range x"
      using vn vrest by simp
    then have "\<forall>m\<in>set (coalesce opts (n # rest)).
      range_end m - range_begin m \<le> sint (range_size_limit opts) \<or> m \<in> set (n # rest)"
      by (rule Cons.IH)
    then show ?thesis
      using False by (auto simp: coalesce_Cons_Cons)
  qed
qed

lemma coalesce_end_in_stream:
  "\<forall>x\<in>set (r # rest). valid_range x \<Longrightarrow>
   \<forall>m\<in>set (coalesce opts (r # rest)). \<exists>x\<in>set (r # rest). range_end m = range_end x"
proof (induction rest arbitrary: r)
  case Nil
  then show ?case by (simp add: coalesce_single)
next
  case (Cons n rest)
  have vr: "valid_range r" and vn: "valid_range n" and vrest: "\<forall>x\<in>set rest. valid_range x"
    using Cons.prems(1) by simp_all
  show ?case
  proof (cases "can_combine opts r n")
    case True
    have v: "\<forall>x\<in>set (combine r n # rest). valid_range x"
      using vr vn vrest by (simp add: valid_combine)
    have c: "range_end (combine r n) = range_end r \<or> range_end (combine r n) = range_end n"
      by (simp add: range_end_combine [OF vr vn] max_def)
    have "\<forall>m\<in>set (coalesce opts (combine r n # rest)).
       \<exists>x\<in>set (combine r n # rest). range_end m = range_end x"
      using Cons.IH [OF v] .
    then show ?thesis
      using True c by (auto simp: coalesce_Cons_Cons)
  next
    case False
    have "\<forall>x\<in>set (n # rest). valid_range x"
      using vn vrest by simp
    then have "\<forall>m\<in>set (coalesce opts (n # rest)). \<exists>x\<in>set (n # rest). range_end m = range_end x"
      by (rule Cons.IH)
    then show ?thesis
      using False by (auto simp: coalesce_Cons_Cons)
  qed
qed

subsection \<open>The walk over an arbitrary stream\<close>

lemma coalesce_valid_all:
  assumes "\<forall>x\<in>set s. valid_range x"
  shows "\<forall>m\<in>set (coalesce opts s). valid_range m"
proof (cases s)
  case Nil
  then show ?thesis by (simp add: coalesce_Nil)
next
  case (Cons r rest)
  then show ?thesis
    using coalesce_valid [of r rest opts] assms by blast
qed

lemma coalesce_in_order_all:
  assumes "\<forall>x\<in>set s. valid_range x" and "sorted_wrt (stream_ok opts) s"
  shows "sorted_wrt in_order (coalesce opts s)"
proof (cases s)
  case Nil
  then show ?thesis by (simp add: coalesce_Nil)
next
  case (Cons r rest)
  then show ?thesis
    using coalesce_in_order [of r rest opts] assms by blast
qed

lemma coalesce_origin_all:
  assumes "\<forall>x\<in>set s. valid_range x" and "sorted_wrt (stream_ok opts) s"
    and "m \<in> set (coalesce opts s)"
  shows "m \<in> set s
         \<or> (0 \<le> sint (hole_size_limit opts)
            \<and> range_end m - range_begin m \<le> sint (range_size_limit opts))"
proof (cases s)
  case Nil
  then show ?thesis using assms(3) by (simp add: coalesce_Nil)
next
  case (Cons r rest)
  then show ?thesis
    using coalesce_origin [of r rest opts] assms by blast
qed

lemma coalesce_gaps_all:
  assumes "\<forall>x\<in>set s. valid_range x"
  shows "successively (\<lambda>a b. \<not> can_combine opts a b) (coalesce opts s)"
proof (cases s)
  case Nil
  then show ?thesis by (simp add: coalesce_Nil)
next
  case (Cons r rest)
  then show ?thesis
    using coalesce_gaps [of r rest opts] assms by blast
qed

lemma coalesce_begin_all:
  assumes "m \<in> set (coalesce opts s)"
  shows "\<exists>x\<in>set s. range_begin m = range_begin x"
proof (cases s)
  case Nil
  then show ?thesis using assms by (simp add: coalesce_Nil)
next
  case (Cons r rest)
  then show ?thesis
    using coalesce_begin_in_stream [of m opts r rest] assms by blast
qed

lemma coalesce_end_all:
  assumes "\<forall>x\<in>set s. valid_range x" and "m \<in> set (coalesce opts s)"
  shows "\<exists>x\<in>set s. range_end m = range_end x"
proof (cases s)
  case Nil
  then show ?thesis using assms(2) by (simp add: coalesce_Nil)
next
  case (Cons r rest)
  then show ?thesis
    using coalesce_end_in_stream [of r rest opts] assms by blast
qed

lemma coalesce_long_all:
  assumes "\<forall>x\<in>set s. valid_range x" and "m \<in> set (coalesce opts s)"
  shows "range_end m - range_begin m \<le> sint (range_size_limit opts) \<or> m \<in> set s"
proof (cases s)
  case Nil
  then show ?thesis using assms(2) by (simp add: coalesce_Nil)
next
  case (Cons r rest)
  then show ?thesis
    using coalesce_long_is_input [of r rest opts] assms by blast
qed

lemma coalesce_covers_all:
  assumes "\<forall>x\<in>set s. valid_range x"
    and "sorted_wrt (\<lambda>a b. range_begin a \<le> range_begin b) s" and "x \<in> set s"
  shows "\<exists>m\<in>set (coalesce opts s). range_begin m \<le> range_begin x \<and> range_end x \<le> range_end m"
proof (cases s)
  case Nil
  then show ?thesis using assms(3) by simp
next
  case (Cons r rest)
  then show ?thesis
    using coalesce_covers [of r rest opts] assms by blast
qed

subsection \<open>The stream of one call of \<^verbatim>\<open>cache\<close>\<close>

lemma set_merge_streams: "set (merge_streams xs ys) = set xs \<union> set ys"
  by (induction xs ys rule: merge_streams.induct) auto

lemma merge_streams_ok:
  assumes "sorted_wrt (stream_ok opts) xs" and "sorted_wrt (stream_ok opts) ys"
    and "\<forall>x\<in>set xs. \<forall>y\<in>set ys.
           (range_begin x \<le> range_begin y \<longrightarrow> stream_ok opts x y)
           \<and> (range_begin y < range_begin x \<longrightarrow> stream_ok opts y x)"
  shows "sorted_wrt (stream_ok opts) (merge_streams xs ys)"
  using assms
proof (induction xs ys rule: merge_streams.induct)
  case (1 ys)
  then show ?case by simp
next
  case (2 x xs)
  then show ?case by simp
next
  case (3 x xs y ys)
  have xs_ok: "\<forall>z\<in>set xs. stream_ok opts x z" and sx: "sorted_wrt (stream_ok opts) xs"
    using "3.prems"(1) by simp_all
  have ys_ok: "\<forall>z\<in>set ys. stream_ok opts y z" and sy: "sorted_wrt (stream_ok opts) ys"
    using "3.prems"(2) by simp_all
  show ?case
  proof (cases "range_begin y < range_begin x")
    case True
    have "stream_ok opts y z" if "z \<in> set (x # xs)" for z
    proof -
      have "range_begin x \<le> range_begin z"
        using that xs_ok stream_ok_begin by auto
      then have "range_begin y < range_begin z" using True by simp
      then show ?thesis using "3.prems"(3) that by auto
    qed
    then have "\<forall>z\<in>set (merge_streams (x # xs) ys). stream_ok opts y z"
      using ys_ok by (auto simp: set_merge_streams)
    moreover have "sorted_wrt (stream_ok opts) (merge_streams (x # xs) ys)"
    proof (rule "3.IH"(1) [OF True "3.prems"(1) sy])
      show "\<forall>x\<in>set (x # xs). \<forall>y\<in>set ys.
           (range_begin x \<le> range_begin y \<longrightarrow> stream_ok opts x y)
           \<and> (range_begin y < range_begin x \<longrightarrow> stream_ok opts y x)"
        using "3.prems"(3) by simp
    qed
    ultimately show ?thesis using True by simp
  next
    case False
    have "stream_ok opts x z" if "z \<in> set (y # ys)" for z
    proof -
      have "range_begin y \<le> range_begin z"
        using that ys_ok stream_ok_begin by auto
      then have "range_begin x \<le> range_begin z" using False by simp
      then show ?thesis using "3.prems"(3) that by auto
    qed
    then have "\<forall>z\<in>set (merge_streams xs (y # ys)). stream_ok opts x z"
      using xs_ok by (auto simp: set_merge_streams)
    moreover have "sorted_wrt (stream_ok opts) (merge_streams xs (y # ys))"
    proof (rule "3.IH"(2) [OF False sx "3.prems"(2)])
      show "\<forall>x\<in>set xs. \<forall>y\<in>set (y # ys).
           (range_begin x \<le> range_begin y \<longrightarrow> stream_ok opts x y)
           \<and> (range_begin y < range_begin x \<longrightarrow> stream_ok opts y x)"
        using "3.prems"(3) by simp
    qed
    ultimately show ?thesis using False by simp
  qed
qed

lemma overlaps_sym: "overlaps a b \<longleftrightarrow> overlaps b a"
  by (auto simp: overlaps_def)

lemma disjoint_insort_key:
  "pairwise_disjoint (insort_key f x xs) \<longleftrightarrow> (\<forall>y\<in>set xs. \<not> overlaps x y) \<and> pairwise_disjoint xs"
proof (induction xs)
  case Nil
  show ?case by (simp add: pairwise_disjoint_def)
next
  case (Cons a xs)
  show ?case
  proof (cases "f x \<le> f a")
    case True
    then show ?thesis by (simp add: pairwise_disjoint_def)
  next
    case False
    have "pairwise_disjoint (a # insort_key f x xs) \<longleftrightarrow>
            (\<not> overlaps a x \<and> (\<forall>y\<in>set xs. \<not> overlaps a y)) \<and> pairwise_disjoint (insort_key f x xs)"
      by (simp add: pairwise_disjoint_def set_insort_key)
    also have "\<dots> \<longleftrightarrow> (\<not> overlaps x a \<and> (\<forall>y\<in>set xs. \<not> overlaps a y))
            \<and> (\<forall>y\<in>set xs. \<not> overlaps x y) \<and> pairwise_disjoint xs"
      using Cons.IH overlaps_sym [of a x] by simp
    also have "\<dots> \<longleftrightarrow> (\<forall>y\<in>set (a # xs). \<not> overlaps x y) \<and> pairwise_disjoint (a # xs)"
      by (auto simp: pairwise_disjoint_def)
    finally show ?thesis using False by simp
  qed
qed

lemma disjoint_sort_key: "pairwise_disjoint (sort_key f xs) \<longleftrightarrow> pairwise_disjoint xs"
proof (induction xs)
  case Nil
  show ?case by simp
next
  case (Cons x xs)
  then show ?case
    by (simp add: disjoint_insort_key) (simp add: pairwise_disjoint_def)
qed

lemma batch_in_order:
  "sorted_wrt (\<lambda>a b. range_begin a \<le> range_begin b) ys \<Longrightarrow> pairwise_disjoint ys \<Longrightarrow>
   sorted_wrt in_order ys"
  unfolding pairwise_disjoint_def
  by (induction ys) (auto simp: in_order_def)

lemma in_order_list_stream_ok:
  assumes "sorted_wrt in_order t"
  shows "sorted_wrt (stream_ok opts) t"
  using assms
proof (rule sorted_wrt_mono_rel [rotated])
  fix x y
  assume "in_order x y"
  then show "stream_ok opts x y" by (rule in_order_stream_ok)
qed

lemma entry_then_request:
  assumes "valid_range c"
    and "q \<in> set reqs" and "range_end q = range_end m" and "valid_range q"
    and "m \<in> set reqs
         \<or> (0 \<le> sint (hole_size_limit opts)
            \<and> range_end m - range_begin m \<le> sint (range_size_limit opts))"
    and "\<forall>q\<in>set reqs. \<not> overlaps q c"
    and "range_begin m \<le> range_begin c"
  shows "stream_ok opts m c"
proof (cases "range_end m \<le> range_begin c")
  case True
  then show ?thesis using assms(7) by (simp add: stream_ok_def)
next
  case False
  have "\<not> overlaps q c" using assms(2,6) by blast
  then have inside: "range_end c \<le> range_end m"
    using False assms(3) valid_range_bounds [OF assms(4)] by (auto simp: overlaps_def)
  show ?thesis
  proof (cases "m \<in> set reqs")
    case True
    then have "\<not> overlaps m c" using assms(6) by blast
    then have "range_end c \<le> range_begin m"
      using False by (auto simp: overlaps_def)
    then show ?thesis using assms(7) by (simp add: stream_ok_def)
  next
    case False
    then have "0 \<le> sint (hole_size_limit opts)"
      and "range_end m - range_begin m \<le> sint (range_size_limit opts)"
      using assms(5) by blast+
    then show ?thesis using assms(7) inside by (simp add: stream_ok_def)
  qed
qed

lemma request_then_entry:
  assumes "valid_range c" and "q \<in> set reqs" and "range_begin q = range_begin m"
    and "valid_range q" and "\<forall>q\<in>set reqs. \<not> overlaps q c"
    and "range_begin c < range_begin m"
  shows "stream_ok opts c m"
proof -
  have "\<not> overlaps q c" using assms(2,5) by blast
  then have "range_end c \<le> range_begin m"
    using assms(3,6) valid_range_bounds [OF assms(4)] valid_range_bounds [OF assms(1)]
    by (auto simp: overlaps_def)
  then show ?thesis using assms(6) by (simp add: stream_ok_def)
qed

subsection \<open>The invariant of the table\<close>

lemma table_inv_step:
  assumes inv: "table_inv opts reqs t"
    and vreqs: "\<forall>q\<in>set reqs. valid_range q" and vbatch: "\<forall>q\<in>set batch. valid_range q"
    and disj: "pairwise_disjoint (reqs @ batch)"
  shows "table_inv opts (reqs @ batch)
           (coalesce opts (merge_streams t (sort_key range_begin batch)))"
proof -
  define ys where "ys = sort_key range_begin batch"
  define s where "s = merge_streams t ys"
  have set_ys: "set ys = set batch"
    by (simp add: ys_def)
  have set_s: "set s = set t \<union> set batch"
    by (simp add: s_def set_merge_streams set_ys)
  have ordered: "sorted_wrt in_order t"
    and vt: "\<forall>m\<in>set t. valid_range m"
    and t_begin: "\<forall>m\<in>set t. \<exists>q\<in>set reqs. range_begin q = range_begin m"
    and t_end: "\<forall>m\<in>set t. \<exists>q\<in>set reqs. range_end q = range_end m"
    and t_origin: "\<forall>m\<in>set t. m \<in> set reqs
            \<or> (0 \<le> sint (hole_size_limit opts)
               \<and> range_end m - range_begin m \<le> sint (range_size_limit opts))"
    and t_cov: "\<forall>q\<in>set reqs. \<exists>m\<in>set t. range_begin m \<le> range_begin q \<and> range_end q \<le> range_end m"
    using inv unfolding table_inv_def by blast+
  have dj_batch: "pairwise_disjoint batch"
    and cross: "\<forall>q\<in>set reqs. \<forall>c\<in>set batch. \<not> overlaps q c"
    using disj by (simp_all add: pairwise_disjoint_def sorted_wrt_append)
  have vs: "\<forall>x\<in>set s. valid_range x"
    using vt vbatch set_s by blast
  have vys: "\<forall>x\<in>set ys. valid_range x"
    using vbatch set_ys by blast
  have ys_sorted: "sorted_wrt (\<lambda>a b. range_begin a \<le> range_begin b) ys"
    using sorted_sort_key [of range_begin batch] by (simp add: ys_def sorted_map)
  have ys_disj: "pairwise_disjoint ys"
    using dj_batch by (simp add: ys_def disjoint_sort_key)
  have ys_ok: "sorted_wrt (stream_ok opts) ys"
    using in_order_list_stream_ok [OF batch_in_order [OF ys_sorted ys_disj]] .
  have t_ok: "sorted_wrt (stream_ok opts) t"
    using in_order_list_stream_ok [OF ordered] .
  have cross_ok: "\<forall>m\<in>set t. \<forall>c\<in>set ys.
           (range_begin m \<le> range_begin c \<longrightarrow> stream_ok opts m c)
           \<and> (range_begin c < range_begin m \<longrightarrow> stream_ok opts c m)"
  proof (intro ballI conjI impI)
    fix m c
    assume m: "m \<in> set t" and c: "c \<in> set ys"
    have vc: "valid_range c" using c vys by blast
    have cc: "\<forall>q\<in>set reqs. \<not> overlaps q c" using cross c set_ys by blast
    obtain qe where qe: "qe \<in> set reqs" "range_end qe = range_end m"
      using t_end m by blast
    obtain qb where qb: "qb \<in> set reqs" "range_begin qb = range_begin m"
      using t_begin m by blast
    have origin: "m \<in> set reqs
            \<or> (0 \<le> sint (hole_size_limit opts)
               \<and> range_end m - range_begin m \<le> sint (range_size_limit opts))"
      using t_origin m by blast
    show "stream_ok opts m c" if "range_begin m \<le> range_begin c"
      using entry_then_request [OF vc qe(1) qe(2) _ origin cc that] vreqs qe(1) by blast
    show "stream_ok opts c m" if "range_begin c < range_begin m"
      using request_then_entry [OF vc qb(1) qb(2) _ cc that] vreqs qb(1) by blast
  qed
  have s_ok: "sorted_wrt (stream_ok opts) s"
    unfolding s_def using merge_streams_ok [OF t_ok ys_ok cross_ok] .
  have s_sorted: "sorted_wrt (\<lambda>a b. range_begin a \<le> range_begin b) s"
    using s_ok by (rule sorted_wrt_mono_rel [rotated]) (simp add: stream_ok_begin)
  have 1: "sorted_wrt in_order (coalesce opts s)"
    using coalesce_in_order_all [OF vs s_ok] .
  have 2: "\<forall>m\<in>set (coalesce opts s). valid_range m"
    using coalesce_valid_all [OF vs] .
  have 3: "\<exists>q\<in>set (reqs @ batch). range_begin q = range_begin m"
    if mm: "m \<in> set (coalesce opts s)" for m
  proof -
    obtain x where "x \<in> set s" and "range_begin m = range_begin x"
      using coalesce_begin_all [OF mm] by blast
    then show ?thesis
      using t_begin set_s by (cases "x \<in> set t") auto
  qed
  have 4: "\<exists>q\<in>set (reqs @ batch). range_end q = range_end m"
    if mm: "m \<in> set (coalesce opts s)" for m
  proof -
    obtain x where "x \<in> set s" and "range_end m = range_end x"
      using coalesce_end_all [OF vs mm] by blast
    then show ?thesis
      using t_end set_s by (cases "x \<in> set t") auto
  qed
  have 5: "m \<in> set (reqs @ batch)
           \<or> (0 \<le> sint (hole_size_limit opts)
              \<and> range_end m - range_begin m \<le> sint (range_size_limit opts))"
    if mm: "m \<in> set (coalesce opts s)" for m
    using coalesce_origin_all [OF vs s_ok mm] t_origin set_s by auto
  have 6: "\<exists>m\<in>set (coalesce opts s). range_begin m \<le> range_begin q \<and> range_end q \<le> range_end m"
    if qq: "q \<in> set (reqs @ batch)" for q
  proof -
    have "\<exists>x\<in>set s. range_begin x \<le> range_begin q \<and> range_end q \<le> range_end x"
      using qq t_cov set_s by auto
    then obtain x where x: "x \<in> set s" "range_begin x \<le> range_begin q" "range_end q \<le> range_end x"
      by blast
    obtain m where m: "m \<in> set (coalesce opts s)" "range_begin m \<le> range_begin x"
      "range_end x \<le> range_end m"
      using coalesce_covers_all [OF vs s_sorted x(1)] by blast
    have "range_begin m \<le> range_begin q \<and> range_end q \<le> range_end m"
      using m(2,3) x(2,3) by simp
    then show ?thesis using m(1) by blast
  qed
  have 7: "successively (\<lambda>a b. \<not> can_combine opts a b) (coalesce opts s)"
    using coalesce_gaps_all [OF vs] .
  show ?thesis
    unfolding table_inv_def s_def [symmetric] ys_def [symmetric]
    using 1 2 3 4 5 6 7 by blast
qed

lemma table_inv_empty: "table_inv opts [] []"
  by (simp add: table_inv_def)

lemma cache_all_Nil: "cache_all opts [] = ReadRangeCache_new opts"
  by (simp add: cache_all_def)

lemma cache_all_snoc: "cache_all opts (bs @ [b]) = cache (cache_all opts bs) b"
  by (simp add: cache_all_def)

lemma options_cache_all: "options (cache_all opts bs) = opts"
  by (induction bs rule: rev_induct)
     (simp_all add: cache_all_Nil cache_all_snoc ReadRangeCache_new_def cache_def)

lemma table_cache:
  "table (cache c b) = coalesce (options c) (merge_streams (table c) (sort_key range_begin b))"
  by (simp add: cache_def)

lemma table_inv_cache_all:
  "\<forall>q\<in>set (concat bs). valid_range q \<Longrightarrow> pairwise_disjoint (concat bs) \<Longrightarrow>
   table_inv opts (concat bs) (table (cache_all opts bs))"
proof (induction bs rule: rev_induct)
  case Nil
  show ?case by (simp add: cache_all_Nil ReadRangeCache_new_def table_inv_empty)
next
  case (snoc b bs)
  have v1: "\<forall>q\<in>set (concat bs). valid_range q" and v2: "\<forall>q\<in>set b. valid_range q"
    using snoc.prems(1) by simp_all
  have d: "pairwise_disjoint (concat bs @ b)"
    using snoc.prems(2) by simp
  then have d1: "pairwise_disjoint (concat bs)"
    by (simp add: pairwise_disjoint_def sorted_wrt_append)
  have inv: "table_inv opts (concat bs) (table (cache_all opts bs))"
    using snoc.IH [OF v1 d1] .
  show ?case
    using table_inv_step [OF inv v1 v2 d]
    by (simp add: cache_all_snoc table_cache options_cache_all)
qed

lemma in_order_disjoint:
  assumes "sorted_wrt in_order t"
  shows "pairwise_disjoint t"
  unfolding pairwise_disjoint_def using assms
proof (rule sorted_wrt_mono_rel [rotated])
  fix x y
  assume "in_order x y"
  then show "\<not> overlaps x y" by (simp add: in_order_def)
qed

lemma in_order_sorted:
  assumes "sorted_wrt in_order t"
  shows "sorted (map range_begin t)"
proof -
  have "sorted_wrt (\<lambda>a b. range_begin a \<le> range_begin b) t"
    using assms
  proof (rule sorted_wrt_mono_rel [rotated])
    fix x y
    assume "in_order x y"
    then show "range_begin x \<le> range_begin y" by (simp add: in_order_def)
  qed
  then show ?thesis by (simp add: sorted_map)
qed

lemma disjoint_nth:
  assumes "pairwise_disjoint t" and "i < length t" and "j < length t" and "i \<noteq> j"
  shows "\<not> overlaps (t ! i) (t ! j)"
proof -
  consider "i < j" | "j < i" using assms(4) by linarith
  then show ?thesis
  proof cases
    case 1
    then show ?thesis
      using sorted_wrt_nth_less [OF assms(1) [unfolded pairwise_disjoint_def] _ assms(3)]
      by blast
  next
    case 2
    then have "\<not> overlaps (t ! j) (t ! i)"
      using sorted_wrt_nth_less [OF assms(1) [unfolded pairwise_disjoint_def] _ assms(2)]
      by blast
    then show ?thesis by (simp add: overlaps_sym)
  qed
qed

lemma two_containers_junction:
  assumes "\<not> overlaps a b"
    and "range_begin a \<le> range_begin q \<and> range_end q \<le> range_end a"
    and "range_begin b \<le> range_begin q \<and> range_end q \<le> range_end b"
    and "range_begin q \<le> range_end q"
  shows "range_end q = range_begin q
         \<and> ((range_end a = range_begin q \<and> range_begin b = range_begin q)
            \<or> (range_end b = range_begin q \<and> range_begin a = range_begin q))"
  using assms unfolding overlaps_def by auto

lemma zero_length_iff: "range_end q = range_begin q \<longleftrightarrow> length_r q = 0"
  by (simp add: range_end_def range_begin_def signed_eq_0_iff)

lemma cache_all_long:
  "\<forall>q\<in>set (concat bs). valid_range q \<Longrightarrow>
   (\<forall>m\<in>set (table (cache_all opts bs)). valid_range m)
   \<and> (\<forall>m\<in>set (table (cache_all opts bs)).
         range_end m - range_begin m \<le> sint (range_size_limit opts) \<or> m \<in> set (concat bs))"
proof (induction bs rule: rev_induct)
  case Nil
  show ?case by (simp add: cache_all_Nil ReadRangeCache_new_def)
next
  case (snoc b bs)
  define t where "t = table (cache_all opts bs)"
  define s where "s = merge_streams t (sort_key range_begin b)"
  have v1: "\<forall>q\<in>set (concat bs). valid_range q" and v2: "\<forall>q\<in>set b. valid_range q"
    using snoc.prems by simp_all
  have vt: "\<forall>m\<in>set t. valid_range m"
    and long: "\<forall>m\<in>set t. range_end m - range_begin m \<le> sint (range_size_limit opts)
                 \<or> m \<in> set (concat bs)"
    using snoc.IH [OF v1] unfolding t_def by blast+
  have set_s: "set s = set t \<union> set b"
    by (simp add: s_def set_merge_streams)
  have vs: "\<forall>x\<in>set s. valid_range x"
    using vt v2 set_s by blast
  have tab: "table (cache_all opts (bs @ [b])) = coalesce opts s"
    by (simp add: cache_all_snoc table_cache options_cache_all s_def t_def)
  have "\<forall>m\<in>set (coalesce opts s). valid_range m"
    using coalesce_valid_all [OF vs] .
  moreover have "range_end m - range_begin m \<le> sint (range_size_limit opts)
                   \<or> m \<in> set (concat (bs @ [b]))"
    if mm: "m \<in> set (coalesce opts s)" for m
    using coalesce_long_all [OF vs mm] long set_s by auto
  ultimately show ?case
    unfolding tab by blast
qed

section \<open>Containment and equality of ranges\<close>

text \<open>
  C6.  \<open>a.contains(b)\<close> holds iff \<open>a.offset \<le> b.offset\<close> and
  \<open>a.offset + a.length \<ge> b.offset + b.length\<close>: literally for the \<^verbatim>\<open>int64_t\<close>
  expressions of the code, and for the mathematical sums whenever both ends are defined
  (no signed overflow).  Equality of ranges is structural: \<^verbatim>\<open>operator==\<close> agrees with
  equality of the two fields, i.e. with equality of the records, and \<^verbatim>\<open>operator!=\<close> is
  its negation.
\<close>

theorem contains_iff_and_equality_structural:
  "(contains a b \<longleftrightarrow>
      (offset a \<le>s offset b \<and> offset b + length_r b \<le>s offset a + length_r a))
   \<and> (end_defined a \<and> end_defined b \<longrightarrow>
        (contains a b \<longleftrightarrow>
           (sint (offset a) \<le> sint (offset b)
            \<and> sint (offset a) + sint (length_r a) \<ge> sint (offset b) + sint (length_r b))))
   \<and> (ReadRange_eq a b \<longleftrightarrow> a = b)
   \<and> (ReadRange_eq a b \<longleftrightarrow> (offset a = offset b \<and> length_r a = length_r b))
   \<and> (ReadRange_neq a b \<longleftrightarrow> a \<noteq> b)"
proof -
  have lit: "contains a b \<longleftrightarrow>
      (offset a \<le>s offset b \<and> offset b + length_r b \<le>s offset a + length_r a)"
    by (simp add: contains_def)
  have math: "contains a b \<longleftrightarrow>
           (sint (offset a) \<le> sint (offset b)
            \<and> sint (offset a) + sint (length_r a) \<ge> sint (offset b) + sint (length_r b))"
    if "end_defined a" and "end_defined b"
    using that by (simp add: contains_def word_sle_eq sint_end_defined)
  have eq: "ReadRange_eq a b \<longleftrightarrow> a = b"
    by (cases a, cases b) (simp add: ReadRange_eq_def)
  have neq: "ReadRange_neq a b \<longleftrightarrow> a \<noteq> b"
    by (simp add: ReadRange_neq_def eq)
  show ?thesis
    using lit math eq neq by (simp add: ReadRange_eq_def)
qed

theorem contains_iff_and_equality_structural_witness:
  "end_defined \<lparr>offset = 0, length_r = 150\<rparr> \<and> end_defined \<lparr>offset = 100, length_r = 50\<rparr>
   \<and> contains \<lparr>offset = 0, length_r = 150\<rparr> \<lparr>offset = 100, length_r = 50\<rparr>
   \<and> \<not> contains \<lparr>offset = 100, length_r = 50\<rparr> \<lparr>offset = 0, length_r = 150\<rparr>
   \<and> ReadRange_eq \<lparr>offset = 100, length_r = 50\<rparr> \<lparr>offset = 100, length_r = 50\<rparr>
   \<and> ReadRange_neq \<lparr>offset = 0, length_r = 150\<rparr> \<lparr>offset = 100, length_r = 50\<rparr>"
proof -
  have d1: "end_defined \<lparr>offset = 0, length_r = 150\<rparr>"
    and d2: "end_defined \<lparr>offset = 100, length_r = 50\<rparr>"
    by (simp_all add: end_defined_def)
  show ?thesis
    using d1 d2
      contains_iff_and_equality_structural
        [of "\<lparr>offset = 0, length_r = 150\<rparr>" "\<lparr>offset = 100, length_r = 50\<rparr>"]
      contains_iff_and_equality_structural
        [of "\<lparr>offset = 100, length_r = 50\<rparr>" "\<lparr>offset = 0, length_r = 150\<rparr>"]
      contains_iff_and_equality_structural
        [of "\<lparr>offset = 100, length_r = 50\<rparr>" "\<lparr>offset = 100, length_r = 50\<rparr>"]
    by (simp add: word_sle_eq)
qed

text \<open>
  C10.  For a range \<open>a\<close> of non-negative length whose end is defined and a zero-length range
  \<open>z\<close>, \<open>a.contains(z)\<close> holds iff \<open>a.offset \<le> z.offset \<le> a.offset + a.length\<close>.  In
  particular \<open>a\<close> contains the zero-length range placed at its exclusive end, a position
  outside the half-open interval \<open>[a.offset, a.offset + a.length)\<close>.
\<close>

theorem contains_zero_length:
  assumes "0 \<le> sint (length_r a)" and "end_defined a" and "length_r z = 0"
  shows "(contains a z \<longleftrightarrow>
            (sint (offset a) \<le> sint (offset z)
             \<and> sint (offset z) \<le> sint (offset a) + sint (length_r a)))
         \<and> (contains a z \<longleftrightarrow>
              (offset a \<le>s offset z \<and> offset z \<le>s offset a + length_r a))
         \<and> contains a \<lparr>offset = offset a + length_r a, length_r = 0\<rparr>
         \<and> sint (offset a + length_r a)
             \<notin> {sint (offset a) ..< sint (offset a) + sint (length_r a)}"
proof -
  have e: "sint (offset a + length_r a) = sint (offset a) + sint (length_r a)"
    using assms(2) by (rule sint_end_defined)
  have lit: "contains a z \<longleftrightarrow> (offset a \<le>s offset z \<and> offset z \<le>s offset a + length_r a)"
    using assms(3) by (simp add: contains_def)
  then have math: "contains a z \<longleftrightarrow>
            (sint (offset a) \<le> sint (offset z)
             \<and> sint (offset z) \<le> sint (offset a) + sint (length_r a))"
    by (simp add: word_sle_eq e)
  have at_end: "contains a \<lparr>offset = offset a + length_r a, length_r = 0\<rparr>"
    using assms(1) by (simp add: contains_def word_sle_eq e)
  have outside: "sint (offset a + length_r a)
             \<notin> {sint (offset a) ..< sint (offset a) + sint (length_r a)}"
    by (simp add: e)
  show ?thesis
    using lit math at_end outside by blast
qed

theorem contains_zero_length_witness:
  "0 \<le> sint (length_r \<lparr>offset = 0, length_r = 10\<rparr>)
   \<and> end_defined \<lparr>offset = 0, length_r = 10\<rparr>
   \<and> length_r \<lparr>offset = 10, length_r = 0\<rparr> = 0
   \<and> contains \<lparr>offset = 0, length_r = 10\<rparr> \<lparr>offset = 10, length_r = 0\<rparr>
   \<and> \<not> contains \<lparr>offset = 0, length_r = 10\<rparr> \<lparr>offset = 11, length_r = 0\<rparr>"
proof -
  have h1: "0 \<le> sint (length_r \<lparr>offset = 0, length_r = 10\<rparr>)" by simp
  have h2: "end_defined \<lparr>offset = 0, length_r = 10\<rparr>" by (simp add: end_defined_def)
  have h3: "length_r \<lparr>offset = 10, length_r = 0\<rparr> = 0"
    and h4: "length_r \<lparr>offset = 11, length_r = 0\<rparr> = 0" by simp_all
  show ?thesis
    using h1 h2 contains_zero_length [OF h1 h2 h3] contains_zero_length [OF h1 h2 h4]
    by simp
qed

text \<open>
  C9.  The default limits declared by \<^verbatim>\<open>ReadRangeCache\<close>: the default hole size
  limit is 8192 bytes and the default range size limit is 33,554,432 bytes, which is
  32 MiB.  Both are positive \<^verbatim>\<open>int64_t\<close> values.
\<close>

theorem default_limits:
  "kDefaultHoleSizeLimit = 8192
   \<and> kDefaultRangeSizeLimit = 33554432
   \<and> sint kDefaultHoleSizeLimit = 8192
   \<and> sint kDefaultRangeSizeLimit = 32 * 1024 * 1024
   \<and> sint kDefaultRangeSizeLimit = 32 * 2 ^ 20"
proof -
  have hole: "kDefaultHoleSizeLimit = 8192"
    by (simp add: kDefaultHoleSizeLimit_def)
  have range: "kDefaultRangeSizeLimit = 33554432"
    by (simp add: kDefaultRangeSizeLimit_def)
  have "sint (8192 :: int64) = 8192" and "sint (33554432 :: int64) = 33554432"
    by simp_all
  then show ?thesis
    unfolding hole range by simp
qed

section \<open>The merging rule\<close>

text \<open>
  C2.  On a stream of well-formed ranges the merger combines the running merged range with
  the next candidate iff \<open>next.offset - running.end \<le> hole_size_limit\<close> and
  \<open>next.end - running.offset \<le> range_size_limit\<close>; the combined range starts where the
  running one starts and ends at the later end.  Otherwise the running range is closed and
  the walk goes on from the candidate.  A gap or a size exactly at its limit merges, one
  byte more does not.
\<close>

theorem merger_combines_iff_within_limits:
  assumes "valid_range running" and "valid_range next"
  shows "(can_combine opts running next \<longleftrightarrow>
            (range_begin next - range_end running \<le> sint (hole_size_limit opts)
             \<and> range_end next - range_begin running \<le> sint (range_size_limit opts)))
    \<and> coalesce opts (running # next # rest) =
         (if range_begin next - range_end running \<le> sint (hole_size_limit opts)
             \<and> range_end next - range_begin running \<le> sint (range_size_limit opts)
          then coalesce opts (combine running next # rest)
          else running # coalesce opts (next # rest))
    \<and> coalesce opts [running, next] =
         (if range_begin next - range_end running \<le> sint (hole_size_limit opts)
             \<and> range_end next - range_begin running \<le> sint (range_size_limit opts)
          then [combine running next] else [running, next])
    \<and> range_begin (combine running next) = range_begin running
    \<and> range_end (combine running next) = max (range_end running) (range_end next)
    \<and> (range_begin next - range_end running = sint (hole_size_limit opts)
        \<and> range_end next - range_begin running \<le> sint (range_size_limit opts)
        \<longrightarrow> coalesce opts [running, next] = [combine running next])
    \<and> (range_begin next - range_end running \<le> sint (hole_size_limit opts)
        \<and> range_end next - range_begin running = sint (range_size_limit opts)
        \<longrightarrow> coalesce opts [running, next] = [combine running next])
    \<and> (range_begin next - range_end running = sint (hole_size_limit opts) + 1
        \<longrightarrow> coalesce opts [running, next] = [running, next])
    \<and> (range_end next - range_begin running = sint (range_size_limit opts) + 1
        \<longrightarrow> coalesce opts [running, next] = [running, next])"
proof -
  have c: "can_combine opts running next \<longleftrightarrow>
            (range_begin next - range_end running \<le> sint (hole_size_limit opts)
             \<and> range_end next - range_begin running \<le> sint (range_size_limit opts))"
    by (simp add: can_combine_def)
  have walk: "coalesce opts (running # next # rest) =
         (if can_combine opts running next then coalesce opts (combine running next # rest)
          else running # coalesce opts (next # rest))"
    by (rule coalesce_Cons_Cons)
  have two: "coalesce opts [running, next] =
         (if can_combine opts running next then [combine running next] else [running, next])"
    by (simp add: coalesce_Cons_Cons coalesce_single)
  have b: "range_begin (combine running next) = range_begin running"
    by (rule range_begin_combine)
  have e: "range_end (combine running next) = max (range_end running) (range_end next)"
    using assms by (rule range_end_combine)
  show ?thesis
    unfolding walk two b e c by simp
qed

theorem merger_combines_iff_within_limits_witness:
  "valid_range \<lparr>offset = 0, length_r = 50\<rparr> \<and> valid_range \<lparr>offset = 150, length_r = 50\<rparr>
   \<and> valid_range \<lparr>offset = 151, length_r = 50\<rparr>
   \<and> coalesce \<lparr>hole_size_limit = 100, range_size_limit = 1000\<rparr>
        [\<lparr>offset = 0, length_r = 50\<rparr>, \<lparr>offset = 150, length_r = 50\<rparr>]
      = [\<lparr>offset = 0, length_r = 200\<rparr>]
   \<and> coalesce \<lparr>hole_size_limit = 100, range_size_limit = 1000\<rparr>
        [\<lparr>offset = 0, length_r = 50\<rparr>, \<lparr>offset = 151, length_r = 50\<rparr>]
      = [\<lparr>offset = 0, length_r = 50\<rparr>, \<lparr>offset = 151, length_r = 50\<rparr>]"
proof -
  let ?O = "\<lparr>hole_size_limit = 100, range_size_limit = 1000\<rparr>"
  have v1: "valid_range \<lparr>offset = 0, length_r = 50\<rparr>"
    and v2: "valid_range \<lparr>offset = 150, length_r = 50\<rparr>"
    and v3: "valid_range \<lparr>offset = 151, length_r = 50\<rparr>"
    by (simp_all add: valid_range_def)
  have a: "coalesce ?O [\<lparr>offset = 0, length_r = 50\<rparr>, \<lparr>offset = 150, length_r = 50\<rparr>]
      = [\<lparr>offset = 0, length_r = 200\<rparr>]"
    using merger_combines_iff_within_limits [OF v1 v2, of ?O "[]"]
    by (simp add: range_begin_def range_end_def combine_def coalesce_single)
  have b: "coalesce ?O [\<lparr>offset = 0, length_r = 50\<rparr>, \<lparr>offset = 151, length_r = 50\<rparr>]
      = [\<lparr>offset = 0, length_r = 50\<rparr>, \<lparr>offset = 151, length_r = 50\<rparr>]"
    using merger_combines_iff_within_limits [OF v1 v3, of ?O "[]"]
    by (simp add: range_begin_def range_end_def coalesce_single)
  show ?thesis
    using v1 v2 v3 a b by blast
qed

section \<open>The table after a sequence of \<^verbatim>\<open>cache\<close> calls\<close>

text \<open>
  C3, as stated, does not hold: a zero-length range that lies where one merged range ends
  and the next begins is contained, per \<open>contains\<close>, in both.  With the limits 100 and
  1000, caching \<open>[0, 1000)\<close>, the empty range at 1000 and \<open>[1000, 1500)\<close> gives the two
  merged ranges \<open>[0, 1000)\<close> and \<open>[1000, 1500)\<close>, and each contains the empty range.
\<close>

theorem zero_length_range_in_two_merged_ranges:
  "list_all valid_range
     [\<lparr>offset = 0, length_r = 1000\<rparr>, \<lparr>offset = 1000, length_r = 0\<rparr>,
      \<lparr>offset = 1000, length_r = 500\<rparr>]
   \<and> pairwise_disjoint
     [\<lparr>offset = 0, length_r = 1000\<rparr>, \<lparr>offset = 1000, length_r = 0\<rparr>,
      \<lparr>offset = 1000, length_r = 500\<rparr>]
   \<and> table (cache_all \<lparr>hole_size_limit = 100, range_size_limit = 1000\<rparr>
        [[\<lparr>offset = 0, length_r = 1000\<rparr>, \<lparr>offset = 1000, length_r = 0\<rparr>,
          \<lparr>offset = 1000, length_r = 500\<rparr>]])
       = [\<lparr>offset = 0, length_r = 1000\<rparr>, \<lparr>offset = 1000, length_r = 500\<rparr>]
   \<and> contains \<lparr>offset = 0, length_r = 1000\<rparr> \<lparr>offset = 1000, length_r = 0\<rparr>
   \<and> contains \<lparr>offset = 1000, length_r = 500\<rparr> \<lparr>offset = 1000, length_r = 0\<rparr>
   \<and> \<not> (\<exists>!m. m \<in> set (table (cache_all \<lparr>hole_size_limit = 100, range_size_limit = 1000\<rparr>
        [[\<lparr>offset = 0, length_r = 1000\<rparr>, \<lparr>offset = 1000, length_r = 0\<rparr>,
          \<lparr>offset = 1000, length_r = 500\<rparr>]]))
          \<and> contains m \<lparr>offset = 1000, length_r = 0\<rparr>)"
proof -
  let ?O = "\<lparr>hole_size_limit = 100, range_size_limit = 1000\<rparr>"
  let ?B = "[[\<lparr>offset = 0, length_r = 1000\<rparr>, \<lparr>offset = 1000, length_r = 0\<rparr>,
          \<lparr>offset = 1000, length_r = 500\<rparr>]]"
  have v: "list_all valid_range
     [\<lparr>offset = 0, length_r = 1000\<rparr>, \<lparr>offset = 1000, length_r = 0\<rparr>,
      \<lparr>offset = 1000, length_r = 500\<rparr>]"
    by (simp add: valid_range_def)
  have d: "pairwise_disjoint
     [\<lparr>offset = 0, length_r = 1000\<rparr>, \<lparr>offset = 1000, length_r = 0\<rparr>,
      \<lparr>offset = 1000, length_r = 500\<rparr>]"
    by (simp add: pairwise_disjoint_def overlaps_def range_begin_def range_end_def)
  have tab: "table (cache_all ?O ?B)
       = [\<lparr>offset = 0, length_r = 1000\<rparr>, \<lparr>offset = 1000, length_r = 500\<rparr>]"
    by code_simp
  have c1: "contains \<lparr>offset = 0, length_r = 1000\<rparr> \<lparr>offset = 1000, length_r = 0\<rparr>"
    and c2: "contains \<lparr>offset = 1000, length_r = 500\<rparr> \<lparr>offset = 1000, length_r = 0\<rparr>"
    by (simp_all add: contains_def word_sle_eq)
  have ne: "\<lparr>offset = 0, length_r = 1000\<rparr> \<noteq> \<lparr>offset = 1000, length_r = 500 :: int64\<rparr>"
    by simp
  have "\<not> (\<exists>!m. m \<in> set (table (cache_all ?O ?B))
          \<and> contains m \<lparr>offset = 1000, length_r = 0\<rparr>)"
  proof
    assume "\<exists>!m. m \<in> set (table (cache_all ?O ?B))
          \<and> contains m \<lparr>offset = 1000, length_r = 0\<rparr>"
    moreover have "\<lparr>offset = 0, length_r = 1000\<rparr> \<in> set (table (cache_all ?O ?B))"
      and "\<lparr>offset = 1000, length_r = 500\<rparr> \<in> set (table (cache_all ?O ?B))"
      unfolding tab by simp_all
    ultimately have "\<lparr>offset = 0, length_r = 1000\<rparr> = \<lparr>offset = 1000, length_r = 500 :: int64\<rparr>"
      using c1 c2 by blast
    then show False using ne by blast
  qed
  then show ?thesis
    using v d tab c1 c2 by blast
qed

text \<open>
  C3, amended.  Let the ranges of a sequence of \<^verbatim>\<open>cache\<close> calls be well formed and
  pairwise non-overlapping.  Then in the resulting table the merged ranges are pairwise
  non-overlapping, they are sorted by ascending offset, the gap between two consecutive
  merged ranges exceeds \<open>hole_size_limit\<close> or combining them would exceed
  \<open>range_size_limit\<close>, and every requested range is contained (per \<open>contains\<close>) in some
  merged range.  A requested range is contained in exactly one entry of the table unless
  it is a zero-length range whose offset is both the end of one merged range and the start
  of another; such a range is contained in both of them.
\<close>

theorem cache_table_invariant:
  assumes "list_all valid_range (concat batches)" and "pairwise_disjoint (concat batches)"
  shows "pairwise_disjoint (table (cache_all opts batches))
    \<and> sorted (map range_begin (table (cache_all opts batches)))
    \<and> successively
         (\<lambda>a b. sint (hole_size_limit opts) < range_begin b - range_end a
                \<or> sint (range_size_limit opts) < range_end b - range_begin a)
         (table (cache_all opts batches))
    \<and> (\<forall>q\<in>set (concat batches). \<exists>m\<in>set (table (cache_all opts batches)). contains m q)
    \<and> (\<forall>q\<in>set (concat batches).
          (\<exists>!i. i < length (table (cache_all opts batches))
                \<and> contains (table (cache_all opts batches) ! i) q)
          \<longleftrightarrow> \<not> (length_r q = 0
                 \<and> (\<exists>i j. i < length (table (cache_all opts batches))
                         \<and> j < length (table (cache_all opts batches)) \<and> i \<noteq> j
                         \<and> range_end (table (cache_all opts batches) ! i) = range_begin q
                         \<and> range_begin (table (cache_all opts batches) ! j) = range_begin q)))
    \<and> (\<forall>q\<in>set (concat batches). \<forall>i j.
          length_r q = 0
          \<and> i < length (table (cache_all opts batches))
          \<and> j < length (table (cache_all opts batches))
          \<and> range_end (table (cache_all opts batches) ! i) = range_begin q
          \<and> range_begin (table (cache_all opts batches) ! j) = range_begin q
          \<longrightarrow> contains (table (cache_all opts batches) ! i) q
              \<and> contains (table (cache_all opts batches) ! j) q)"
proof -
  define t where "t = table (cache_all opts batches)"
  have vq: "\<forall>q\<in>set (concat batches). valid_range q"
    using assms(1) by (simp add: list_all_iff)
  have inv: "table_inv opts (concat batches) t"
    unfolding t_def using table_inv_cache_all [OF vq assms(2)] .
  have ordered: "sorted_wrt in_order t"
    and vt: "\<forall>m\<in>set t. valid_range m"
    and cov: "\<forall>q\<in>set (concat batches). \<exists>m\<in>set t.
                 range_begin m \<le> range_begin q \<and> range_end q \<le> range_end m"
    and gaps: "successively (\<lambda>a b. \<not> can_combine opts a b) t"
    using inv unfolding table_inv_def by blast+
  have vnth: "valid_range (t ! i)" if "i < length t" for i
    using vt that by simp
  have 1: "pairwise_disjoint t"
    using ordered by (rule in_order_disjoint)
  have 2: "sorted (map range_begin t)"
    using ordered by (rule in_order_sorted)
  have 3: "successively
         (\<lambda>a b. sint (hole_size_limit opts) < range_begin b - range_end a
                \<or> sint (range_size_limit opts) < range_end b - range_begin a) t"
    using gaps by (rule successively_mono) (auto simp: can_combine_def)
  have 4: "\<exists>m\<in>set t. contains m q" if q: "q \<in> set (concat batches)" for q
  proof -
    obtain m where m: "m \<in> set t" "range_begin m \<le> range_begin q \<and> range_end q \<le> range_end m"
      using cov q by blast
    have "contains m q"
      using m(2) contains_valid [of m q] vt m(1) vq q by blast
    then show ?thesis using m(1) by blast
  qed
  have 6: "contains (t ! i) q \<and> contains (t ! j) q"
    if q: "q \<in> set (concat batches)" and z: "length_r q = 0"
      and i: "i < length t" and j: "j < length t"
      and ei: "range_end (t ! i) = range_begin q" and bj: "range_begin (t ! j) = range_begin q"
    for q i j
  proof -
    have vqq: "valid_range q" using vq q by blast
    have e: "range_end q = range_begin q"
      using z zero_length_iff [of q] by simp
    have "range_begin (t ! i) \<le> range_begin q \<and> range_end q \<le> range_end (t ! i)"
      using ei e valid_range_bounds [OF vnth [OF i]] by simp
    moreover have "range_begin (t ! j) \<le> range_begin q \<and> range_end q \<le> range_end (t ! j)"
      using bj e valid_range_bounds [OF vnth [OF j]] by simp
    ultimately show ?thesis
      using contains_valid [OF vnth [OF i] vqq] contains_valid [OF vnth [OF j] vqq] by simp
  qed
  have 5: "(\<exists>!i. i < length t \<and> contains (t ! i) q)
          \<longleftrightarrow> \<not> (length_r q = 0
                 \<and> (\<exists>i j. i < length t \<and> j < length t \<and> i \<noteq> j
                         \<and> range_end (t ! i) = range_begin q
                         \<and> range_begin (t ! j) = range_begin q))"
    if q: "q \<in> set (concat batches)" for q
  proof
    assume u: "\<exists>!i. i < length t \<and> contains (t ! i) q"
    show "\<not> (length_r q = 0
                 \<and> (\<exists>i j. i < length t \<and> j < length t \<and> i \<noteq> j
                         \<and> range_end (t ! i) = range_begin q
                         \<and> range_begin (t ! j) = range_begin q))"
    proof
      assume "length_r q = 0
                 \<and> (\<exists>i j. i < length t \<and> j < length t \<and> i \<noteq> j
                         \<and> range_end (t ! i) = range_begin q
                         \<and> range_begin (t ! j) = range_begin q)"
      then obtain i j where z: "length_r q = 0" and i: "i < length t" and j: "j < length t"
        and ne: "i \<noteq> j" and ei: "range_end (t ! i) = range_begin q"
        and bj: "range_begin (t ! j) = range_begin q"
        by blast
      have "contains (t ! i) q \<and> contains (t ! j) q"
        using 6 [OF q z i j ei bj] .
      then have "i = j" using u i j by blast
      then show False using ne by simp
    qed
  next
    assume nj: "\<not> (length_r q = 0
                 \<and> (\<exists>i j. i < length t \<and> j < length t \<and> i \<noteq> j
                         \<and> range_end (t ! i) = range_begin q
                         \<and> range_begin (t ! j) = range_begin q))"
    have vqq: "valid_range q" using vq q by blast
    obtain m where "m \<in> set t" "contains m q"
      using 4 [OF q] by blast
    then obtain i where i: "i < length t" "contains (t ! i) q"
      by (auto simp: in_set_conv_nth)
    have "j = i" if j: "j < length t \<and> contains (t ! j) q" for j
    proof (rule ccontr)
      assume ne: "j \<noteq> i"
      have ci: "range_begin (t ! i) \<le> range_begin q \<and> range_end q \<le> range_end (t ! i)"
        using i contains_valid [OF vnth [OF i(1)] vqq] by simp
      have cj: "range_begin (t ! j) \<le> range_begin q \<and> range_end q \<le> range_end (t ! j)"
        using j contains_valid [OF vnth [of j] vqq] by simp
      have d: "\<not> overlaps (t ! i) (t ! j)"
        using disjoint_nth [OF 1 i(1) _ ne [symmetric]] j by blast
      have bq: "range_begin q \<le> range_end q"
        using valid_range_bounds [OF vqq] by simp
      note tc = two_containers_junction [OF d ci cj bq]
      have z: "length_r q = 0"
        using tc zero_length_iff [of q] by simp
      have "\<exists>i j. i < length t \<and> j < length t \<and> i \<noteq> j
                         \<and> range_end (t ! i) = range_begin q
                         \<and> range_begin (t ! j) = range_begin q"
      proof (cases "range_end (t ! i) = range_begin q \<and> range_begin (t ! j) = range_begin q")
        case True
        then have "i < length t \<and> j < length t \<and> i \<noteq> j
                         \<and> range_end (t ! i) = range_begin q
                         \<and> range_begin (t ! j) = range_begin q"
          using i(1) j ne by simp
        then show ?thesis by (intro exI)
      next
        case False
        then have "j < length t \<and> i < length t \<and> j \<noteq> i
                         \<and> range_end (t ! j) = range_begin q
                         \<and> range_begin (t ! i) = range_begin q"
          using False tc i(1) j ne by blast
        then show ?thesis by (intro exI)
      qed
      then show False using nj z by simp
    qed
    then show "\<exists>!i. i < length t \<and> contains (t ! i) q"
      using i by blast
  qed
  show ?thesis
    unfolding t_def [symmetric]
  proof (intro conjI ballI allI impI)
    show "pairwise_disjoint t" by (rule 1)
    show "sorted (map range_begin t)" by (rule 2)
    show "successively
         (\<lambda>a b. sint (hole_size_limit opts) < range_begin b - range_end a
                \<or> sint (range_size_limit opts) < range_end b - range_begin a) t"
      by (rule 3)
    show "\<exists>m\<in>set t. contains m q" if "q \<in> set (concat batches)" for q
      using that by (rule 4)
    show "(\<exists>!i. i < length t \<and> contains (t ! i) q)
          \<longleftrightarrow> \<not> (length_r q = 0
                 \<and> (\<exists>i j. i < length t \<and> j < length t \<and> i \<noteq> j
                         \<and> range_end (t ! i) = range_begin q
                         \<and> range_begin (t ! j) = range_begin q))"
      if "q \<in> set (concat batches)" for q
      using that by (rule 5)
    show "contains (t ! i) q" and "contains (t ! j) q"
      if "q \<in> set (concat batches)"
        and "length_r q = 0 \<and> i < length t \<and> j < length t
             \<and> range_end (t ! i) = range_begin q \<and> range_begin (t ! j) = range_begin q"
      for q i j
      using 6 [of q i j] that by blast+
  qed
qed

theorem cache_table_invariant_witness:
  "list_all valid_range
        (concat [[\<lparr>offset = 0, length_r = 50\<rparr>, \<lparr>offset = 100, length_r = 50\<rparr>],
                 [\<lparr>offset = 300, length_r = 50\<rparr>]])
   \<and> pairwise_disjoint
        (concat [[\<lparr>offset = 0, length_r = 50\<rparr>, \<lparr>offset = 100, length_r = 50\<rparr>],
                 [\<lparr>offset = 300, length_r = 50\<rparr>]])
   \<and> table (cache_all \<lparr>hole_size_limit = 100, range_size_limit = 1000\<rparr>
        [[\<lparr>offset = 0, length_r = 50\<rparr>, \<lparr>offset = 100, length_r = 50\<rparr>],
         [\<lparr>offset = 300, length_r = 50\<rparr>]])
       = [\<lparr>offset = 0, length_r = 150\<rparr>, \<lparr>offset = 300, length_r = 50\<rparr>]
   \<and> pairwise_disjoint (table (cache_all \<lparr>hole_size_limit = 100, range_size_limit = 1000\<rparr>
        [[\<lparr>offset = 0, length_r = 50\<rparr>, \<lparr>offset = 100, length_r = 50\<rparr>],
         [\<lparr>offset = 300, length_r = 50\<rparr>]]))
   \<and> (\<exists>!i. i < length (table (cache_all \<lparr>hole_size_limit = 100, range_size_limit = 1000\<rparr>
        [[\<lparr>offset = 0, length_r = 50\<rparr>, \<lparr>offset = 100, length_r = 50\<rparr>],
         [\<lparr>offset = 300, length_r = 50\<rparr>]]))
        \<and> contains (table (cache_all \<lparr>hole_size_limit = 100, range_size_limit = 1000\<rparr>
        [[\<lparr>offset = 0, length_r = 50\<rparr>, \<lparr>offset = 100, length_r = 50\<rparr>],
         [\<lparr>offset = 300, length_r = 50\<rparr>]]) ! i) \<lparr>offset = 100, length_r = 50\<rparr>)
   \<and> list_all valid_range
        (concat [[\<lparr>offset = 0, length_r = 1000\<rparr>, \<lparr>offset = 1000, length_r = 0\<rparr>,
                  \<lparr>offset = 1000, length_r = 500\<rparr>]])
   \<and> pairwise_disjoint
        (concat [[\<lparr>offset = 0, length_r = 1000\<rparr>, \<lparr>offset = 1000, length_r = 0\<rparr>,
                  \<lparr>offset = 1000, length_r = 500\<rparr>]])
   \<and> \<not> (\<exists>!i. i < length (table (cache_all \<lparr>hole_size_limit = 100, range_size_limit = 1000\<rparr>
        [[\<lparr>offset = 0, length_r = 1000\<rparr>, \<lparr>offset = 1000, length_r = 0\<rparr>,
          \<lparr>offset = 1000, length_r = 500\<rparr>]]))
        \<and> contains (table (cache_all \<lparr>hole_size_limit = 100, range_size_limit = 1000\<rparr>
        [[\<lparr>offset = 0, length_r = 1000\<rparr>, \<lparr>offset = 1000, length_r = 0\<rparr>,
          \<lparr>offset = 1000, length_r = 500\<rparr>]]) ! i) \<lparr>offset = 1000, length_r = 0\<rparr>)"
proof -
  let ?O = "\<lparr>hole_size_limit = 100, range_size_limit = 1000\<rparr>"
  let ?B = "[[\<lparr>offset = 0, length_r = 50\<rparr>, \<lparr>offset = 100, length_r = 50\<rparr>],
             [\<lparr>offset = 300, length_r = 50\<rparr>]]"
  let ?J = "[[\<lparr>offset = 0, length_r = 1000\<rparr>, \<lparr>offset = 1000, length_r = 0\<rparr>,
              \<lparr>offset = 1000, length_r = 500\<rparr>]]"
  let ?z = "\<lparr>offset = 1000, length_r = 0\<rparr>"
  have h1: "list_all valid_range (concat ?B)"
    by (simp add: valid_range_def)
  have h2: "pairwise_disjoint (concat ?B)"
    by (simp add: pairwise_disjoint_def overlaps_def range_begin_def range_end_def)
  note inv = cache_table_invariant [OF h1 h2, of ?O]
  have q: "\<lparr>offset = 100, length_r = 50\<rparr> \<in> set (concat ?B)"
    and ne: "length_r \<lparr>offset = 100, length_r = 50\<rparr> \<noteq> (0 :: int64)"
    by simp_all
  have u: "\<exists>!i. i < length (table (cache_all ?O ?B))
        \<and> contains (table (cache_all ?O ?B) ! i) \<lparr>offset = 100, length_r = 50\<rparr>"
    using inv q ne by blast
  have tab: "table (cache_all ?O ?B)
       = [\<lparr>offset = 0, length_r = 150\<rparr>, \<lparr>offset = 300, length_r = 50\<rparr>]"
    by code_simp
  have j1: "list_all valid_range (concat ?J)"
    by (simp add: valid_range_def)
  have j2: "pairwise_disjoint (concat ?J)"
    by (simp add: pairwise_disjoint_def overlaps_def range_begin_def range_end_def)
  note invj = cache_table_invariant [OF j1 j2, of ?O]
  have tabj: "table (cache_all ?O ?J)
       = [\<lparr>offset = 0, length_r = 1000\<rparr>, \<lparr>offset = 1000, length_r = 500\<rparr>]"
    by code_simp
  have zq: "?z \<in> set (concat ?J)"
    by simp
  have "(0 :: nat) < length (table (cache_all ?O ?J)) \<and> (1 :: nat) < length (table (cache_all ?O ?J))
        \<and> (0 :: nat) \<noteq> 1
        \<and> range_end (table (cache_all ?O ?J) ! 0) = range_begin ?z
        \<and> range_begin (table (cache_all ?O ?J) ! 1) = range_begin ?z"
    unfolding tabj by (simp add: range_begin_def range_end_def)
  then have "\<exists>i j. i < length (table (cache_all ?O ?J)) \<and> j < length (table (cache_all ?O ?J))
               \<and> i \<noteq> j
               \<and> range_end (table (cache_all ?O ?J) ! i) = range_begin ?z
               \<and> range_begin (table (cache_all ?O ?J) ! j) = range_begin ?z"
    by (intro exI)
  then have "length_r ?z = 0
        \<and> (\<exists>i j. i < length (table (cache_all ?O ?J)) \<and> j < length (table (cache_all ?O ?J))
               \<and> i \<noteq> j
               \<and> range_end (table (cache_all ?O ?J) ! i) = range_begin ?z
               \<and> range_begin (table (cache_all ?O ?J) ! j) = range_begin ?z)"
    by simp
  then have nu: "\<not> (\<exists>!i. i < length (table (cache_all ?O ?J))
        \<and> contains (table (cache_all ?O ?J) ! i) ?z)"
    using invj zq by blast
  show ?thesis
    using h1 h2 inv u tab j1 j2 nu by blast
qed

text \<open>
  C5, as stated, does not hold: a single requested range longer than \<open>range_size_limit\<close>
  becomes a merged range of its own.  With the limit 1000, caching the one range
  \<open>[0, 2000)\<close> gives a table whose only entry has length 2000.
\<close>

theorem single_range_longer_than_limit:
  "list_all valid_range [\<lparr>offset = 0, length_r = 2000\<rparr>]
   \<and> pairwise_disjoint [\<lparr>offset = 0, length_r = 2000\<rparr>]
   \<and> table (cache_all \<lparr>hole_size_limit = 100, range_size_limit = 1000\<rparr>
        [[\<lparr>offset = 0, length_r = 2000\<rparr>]]) = [\<lparr>offset = 0, length_r = 2000\<rparr>]
   \<and> sint (range_size_limit \<lparr>hole_size_limit = 100, range_size_limit = 1000\<rparr>)
       < sint (length_r \<lparr>offset = 0, length_r = 2000\<rparr>)"
proof -
  have "table (cache_all \<lparr>hole_size_limit = 100, range_size_limit = 1000\<rparr>
        [[\<lparr>offset = 0, length_r = 2000\<rparr>]]) = [\<lparr>offset = 0, length_r = 2000\<rparr>]"
    by code_simp
  then show ?thesis
    by (simp add: valid_range_def pairwise_disjoint_def)
qed

text \<open>
  C5, amended.  After every sequence of \<^verbatim>\<open>cache\<close> calls on well-formed ranges, every
  merged range in the table has length at most \<open>range_size_limit\<close> or is itself one of
  the requested ranges: the limit bounds what combining may produce, not the size of a
  single requested range.
\<close>

theorem merged_range_length_bounded:
  assumes "list_all valid_range (concat batches)"
  shows "\<forall>m\<in>set (table (cache_all opts batches)).
           sint (length_r m) \<le> sint (range_size_limit opts) \<or> m \<in> set (concat batches)"
proof -
  have "\<forall>q\<in>set (concat batches). valid_range q"
    using assms by (simp add: list_all_iff)
  then have "\<forall>m\<in>set (table (cache_all opts batches)).
         range_end m - range_begin m \<le> sint (range_size_limit opts) \<or> m \<in> set (concat batches)"
    using cache_all_long by blast
  then show ?thesis
    by (simp add: range_begin_def range_end_def)
qed

theorem merged_range_length_bounded_witness:
  "list_all valid_range
     (concat [[\<lparr>offset = 0, length_r = 2000\<rparr>, \<lparr>offset = 2050, length_r = 50\<rparr>]])
   \<and> table (cache_all \<lparr>hole_size_limit = 100, range_size_limit = 1000\<rparr>
        [[\<lparr>offset = 0, length_r = 2000\<rparr>, \<lparr>offset = 2050, length_r = 50\<rparr>]])
      = [\<lparr>offset = 0, length_r = 2000\<rparr>, \<lparr>offset = 2050, length_r = 50\<rparr>]
   \<and> list_all
        (\<lambda>m. sint (length_r m) \<le> sint (range_size_limit \<lparr>hole_size_limit = 100, range_size_limit = 1000\<rparr>)
             \<or> m \<in> set (concat [[\<lparr>offset = 0, length_r = 2000\<rparr>, \<lparr>offset = 2050, length_r = 50\<rparr>]]))
        (table (cache_all \<lparr>hole_size_limit = 100, range_size_limit = 1000\<rparr>
        [[\<lparr>offset = 0, length_r = 2000\<rparr>, \<lparr>offset = 2050, length_r = 50\<rparr>]]))"
proof -
  let ?O = "\<lparr>hole_size_limit = 100, range_size_limit = 1000\<rparr>"
  let ?B = "[[\<lparr>offset = 0, length_r = 2000\<rparr>, \<lparr>offset = 2050, length_r = 50\<rparr>]]"
  have v: "list_all valid_range (concat ?B)"
    by (simp add: valid_range_def)
  have tab: "table (cache_all ?O ?B)
      = [\<lparr>offset = 0, length_r = 2000\<rparr>, \<lparr>offset = 2050, length_r = 50\<rparr>]"
    by code_simp
  have "list_all
        (\<lambda>m. sint (length_r m) \<le> sint (range_size_limit ?O) \<or> m \<in> set (concat ?B))
        (table (cache_all ?O ?B))"
    using merged_range_length_bounded [OF v, of ?O] unfolding list_all_iff .
  then show ?thesis
    using v tab by blast
qed

end
